theory Spec2Isabelle
  imports Complex_Main
begin

text \<open>
  A shallow embedding of the numeric core of \<open>src/App.jsx\<close>, the savings projection
  calculator: \<open>computeProjection\<close>, the tick functions \<open>niceStep\<close>, \<open>niceCeil\<close>,
  \<open>pickTicks\<close> and \<open>makeLogTicks\<close>, \<open>niceRoundUp\<close>, \<open>clampInt\<close>,
  \<open>windfallPeriodFromChoice\<close>, and the effect of \<open>App\<close> that eases \<open>yMaxDisplay\<close>.
  The definitions come first, in the order of the source; the properties follow.
\<close>

section \<open>Number values\<close>

text \<open>
  A JavaScript Number is a finite value, one of the two infinities, or NaN. The
  finite values are modelled as reals. The rounding that every arithmetic
  operation of a binary64 Number performs on its exact result is a parameter
  \<open>fl\<close> of the operations: \<open>exact\<close> (no rounding) gives exact arithmetic,
  \<open>rd53\<close> below gives round-to-nearest-even on a 53 bit significand.
  Not modelled: the sign of zero, overflow of a finite result to an infinity, and
  subnormal numbers.
\<close>

datatype number = Fin real | PInf | NInf | NaN

type_synonym rounding = "real \<Rightarrow> real"

definition exact :: rounding where
  "exact x = x"

fun isFinite :: "number \<Rightarrow> bool" where
  "isFinite (Fin x) = True"
| "isFinite PInf = False"
| "isFinite NInf = False"
| "isFinite NaN = False"

fun jadd :: "rounding \<Rightarrow> number \<Rightarrow> number \<Rightarrow> number" where
  "jadd fl (Fin x) (Fin y) = Fin (fl (x + y))"
| "jadd fl NaN b = NaN"
| "jadd fl a NaN = NaN"
| "jadd fl PInf NInf = NaN"
| "jadd fl NInf PInf = NaN"
| "jadd fl PInf b = PInf"
| "jadd fl NInf b = NInf"
| "jadd fl (Fin x) b = b"

fun jsub :: "rounding \<Rightarrow> number \<Rightarrow> number \<Rightarrow> number" where
  "jsub fl (Fin x) (Fin y) = Fin (fl (x - y))"
| "jsub fl NaN b = NaN"
| "jsub fl a NaN = NaN"
| "jsub fl PInf PInf = NaN"
| "jsub fl NInf NInf = NaN"
| "jsub fl PInf b = PInf"
| "jsub fl NInf b = NInf"
| "jsub fl (Fin x) PInf = NInf"
| "jsub fl (Fin x) NInf = PInf"

fun jmul :: "rounding \<Rightarrow> number \<Rightarrow> number \<Rightarrow> number" where
  "jmul fl (Fin x) (Fin y) = Fin (fl (x * y))"
| "jmul fl NaN b = NaN"
| "jmul fl a NaN = NaN"
| "jmul fl PInf (Fin y) = (if y = 0 then NaN else if 0 < y then PInf else NInf)"
| "jmul fl NInf (Fin y) = (if y = 0 then NaN else if 0 < y then NInf else PInf)"
| "jmul fl (Fin x) PInf = (if x = 0 then NaN else if 0 < x then PInf else NInf)"
| "jmul fl (Fin x) NInf = (if x = 0 then NaN else if 0 < x then NInf else PInf)"
| "jmul fl PInf PInf = PInf"
| "jmul fl NInf NInf = PInf"
| "jmul fl PInf NInf = NInf"
| "jmul fl NInf PInf = NInf"

fun jdiv :: "rounding \<Rightarrow> number \<Rightarrow> number \<Rightarrow> number" where
  "jdiv fl (Fin x) (Fin y) =
     (if y = 0 then (if x = 0 then NaN else if 0 < x then PInf else NInf)
      else Fin (fl (x / y)))"
| "jdiv fl NaN b = NaN"
| "jdiv fl a NaN = NaN"
| "jdiv fl (Fin x) PInf = Fin 0"
| "jdiv fl (Fin x) NInf = Fin 0"
| "jdiv fl PInf (Fin y) = (if 0 \<le> y then PInf else NInf)"
| "jdiv fl NInf (Fin y) = (if 0 \<le> y then NInf else PInf)"
| "jdiv fl PInf b = NaN"
| "jdiv fl NInf b = NaN"

text \<open>The comparisons \<open><\<close> and \<open><=\<close>: false as soon as one side is NaN.\<close>

fun jlt :: "number \<Rightarrow> number \<Rightarrow> bool" where
  "jlt (Fin x) (Fin y) = (x < y)"
| "jlt NaN b = False"
| "jlt a NaN = False"
| "jlt PInf b = False"
| "jlt a NInf = False"
| "jlt NInf b = True"
| "jlt (Fin x) PInf = True"

fun jle :: "number \<Rightarrow> number \<Rightarrow> bool" where
  "jle (Fin x) (Fin y) = (x \<le> y)"
| "jle NaN b = False"
| "jle a NaN = False"
| "jle NInf b = True"
| "jle a PInf = True"
| "jle PInf b = False"
| "jle (Fin x) NInf = False"

text \<open>Strict equality \<open>===\<close> of two Numbers: NaN equals nothing.\<close>

fun jseq :: "number \<Rightarrow> number \<Rightarrow> bool" where
  "jseq (Fin x) (Fin y) = (x = y)"
| "jseq PInf PInf = True"
| "jseq NInf NInf = True"
| "jseq a b = False"

text \<open>\<open>Math.max\<close> and \<open>Math.min\<close> of two arguments: NaN if one of them is.\<close>

definition jmax :: "number \<Rightarrow> number \<Rightarrow> number" where
  "jmax a b = (if a = NaN \<or> b = NaN then NaN else if jle a b then b else a)"

definition jmin :: "number \<Rightarrow> number \<Rightarrow> number" where
  "jmin a b = (if a = NaN \<or> b = NaN then NaN else if jle a b then a else b)"

text \<open>\<open>Math.round\<close> rounds a half towards \<open>+\<infinity>\<close>; \<open>Math.ceil\<close>, \<open>Math.floor\<close>.\<close>

fun jround :: "number \<Rightarrow> number" where
  "jround (Fin x) = Fin (of_int \<lfloor>x + 1 / 2\<rfloor>)"
| "jround a = a"

fun jceil :: "number \<Rightarrow> number" where
  "jceil (Fin x) = Fin (of_int \<lceil>x\<rceil>)"
| "jceil a = a"

fun jfloor :: "number \<Rightarrow> number" where
  "jfloor (Fin x) = Fin (of_int \<lfloor>x\<rfloor>)"
| "jfloor a = a"

text \<open>
  The remainder \<open>%\<close>: the sign of the result is the dividend's, and the result is
  exact (no rounding).
\<close>

definition trunc :: "real \<Rightarrow> int" where
  "trunc x = (if 0 \<le> x then \<lfloor>x\<rfloor> else \<lceil>x\<rceil>)"

fun jmod :: "number \<Rightarrow> number \<Rightarrow> number" where
  "jmod (Fin x) (Fin y) = (if y = 0 then NaN else Fin (x - y * of_int (trunc (x / y))))"
| "jmod (Fin x) PInf = Fin x"
| "jmod (Fin x) NInf = Fin x"
| "jmod a b = NaN"

text \<open>
  \<open>Math.pow\<close>, case by case as ECMAScript's \<open>Number::exponentiate\<close> lists them (a
  zero is \<open>+0\<close>); the last case is the rounded real power.
\<close>

definition isOddInt :: "real \<Rightarrow> bool" where
  "isOddInt y = (y = of_int \<lfloor>y\<rfloor> \<and> odd \<lfloor>y\<rfloor>)"

fun jpow :: "rounding \<Rightarrow> number \<Rightarrow> number \<Rightarrow> number" where
  "jpow fl b NaN = NaN"
| "jpow fl NaN (Fin y) = (if y = 0 then Fin 1 else NaN)"
| "jpow fl NaN e = NaN"
| "jpow fl PInf (Fin y) = (if y = 0 then Fin 1 else if 0 < y then PInf else Fin 0)"
| "jpow fl PInf PInf = PInf"
| "jpow fl PInf NInf = Fin 0"
| "jpow fl NInf (Fin y) =
     (if y = 0 then Fin 1
      else if 0 < y then (if isOddInt y then NInf else PInf)
      else Fin 0)"
| "jpow fl NInf PInf = PInf"
| "jpow fl NInf NInf = Fin 0"
| "jpow fl (Fin x) PInf =
     (if x = 0 then Fin 0
      else if 1 < \<bar>x\<bar> then PInf else if \<bar>x\<bar> = 1 then NaN else Fin 0)"
| "jpow fl (Fin x) NInf =
     (if x = 0 then PInf
      else if 1 < \<bar>x\<bar> then Fin 0 else if \<bar>x\<bar> = 1 then NaN else PInf)"
| "jpow fl (Fin x) (Fin y) =
     (if y = 0 then Fin 1
      else if x = 0 then (if 0 < y then Fin 0 else PInf)
      else if x < 0 \<and> y \<noteq> of_int \<lfloor>y\<rfloor> then NaN
      else if x < 0 then Fin (fl ((if odd \<lfloor>y\<rfloor> then - 1 else 1) * (\<bar>x\<bar> powr y)))
      else Fin (fl (x powr y)))"

section \<open>The projection simulator\<close>

text \<open>
  The argument object of \<open>computeProjection\<close>, after the defaults of the
  destructuring pattern have been filled in (\<open>windfallAmount = 0\<close>,
  \<open>windfallAtPeriod = null\<close>, \<open>maxPoints = 240\<close>); \<open>null\<close> is \<open>None\<close>.
\<close>

record inputs =
  currentAge :: number
  retirementAge :: number
  startingAmount :: number
  contributionPerPayday :: number
  annualRatePct :: number
  payPeriodsPerYear :: number
  windfallAmount :: number
  windfallAtPeriod :: "number option"
  maxPoints :: number

text \<open>An element of \<open>points\<close>; the point of period 0 has no \<open>interestThisPeriod\<close>.\<close>

record point =
  periodIndex :: nat
  yearIndex :: number
  balance :: number
  totalContrib :: number
  interestEarned :: number
  interestThisPeriod :: "number option"

record projection =
  years :: number
  totalPeriods :: number
  finalBalance :: number
  finalContrib :: number
  finalInterest :: number
  points :: "point list"

text \<open>The local variables \<open>balance\<close>, \<open>totalContrib\<close> and \<open>points\<close> of the loop.\<close>

record vars =
  v_balance :: number
  v_totalContrib :: number
  v_points :: "point list"

definition yearsOf :: "rounding \<Rightarrow> inputs \<Rightarrow> number" where
  "yearsOf fl inp = jmax (Fin 0) (jsub fl (retirementAge inp) (currentAge inp))"

definition totalPeriodsOf :: "rounding \<Rightarrow> inputs \<Rightarrow> number" where
  "totalPeriodsOf fl inp =
     jmax (Fin 0) (jround (jmul fl (yearsOf fl inp) (payPeriodsPerYear inp)))"

definition rAnnual :: "rounding \<Rightarrow> inputs \<Rightarrow> number" where
  "rAnnual fl inp = jdiv fl (annualRatePct inp) (Fin 100)"

definition rPerPeriod :: "rounding \<Rightarrow> inputs \<Rightarrow> number" where
  "rPerPeriod fl inp =
     (if jlt (Fin 0) (payPeriodsPerYear inp)
      then jsub fl (jpow fl (jadd fl (Fin 1) (rAnnual fl inp))
                            (jdiv fl (Fin 1) (payPeriodsPerYear inp))) (Fin 1)
      else Fin 0)"

definition keepAll :: "inputs \<Rightarrow> bool" where
  "keepAll inp = (\<not> isFinite (maxPoints inp) \<or> jle (maxPoints inp) (Fin 0))"

definition sampleStep :: "rounding \<Rightarrow> inputs \<Rightarrow> number" where
  "sampleStep fl inp =
     (if keepAll inp then Fin 1
      else jmax (Fin 1) (jceil (jdiv fl (totalPeriodsOf fl inp) (maxPoints inp))))"

definition initialVars :: "rounding \<Rightarrow> inputs \<Rightarrow> vars" where
  "initialVars fl inp =
     \<lparr>v_balance = startingAmount inp, v_totalContrib = Fin 0,
      v_points =
        [\<lparr>periodIndex = 0, yearIndex = Fin 0, balance = startingAmount inp,
          totalContrib = Fin 0,
          interestEarned =
            jsub fl (jsub fl (startingAmount inp) (startingAmount inp)) (Fin 0),
          interestThisPeriod = None\<rparr>]\<rparr>"

text \<open>The windfall test of the loop body: \<open>windfallAtPeriod === i\<close> is false for \<open>null\<close>.\<close>

definition windfallFires :: "inputs \<Rightarrow> nat \<Rightarrow> bool" where
  "windfallFires inp i =
     (isFinite (windfallAmount inp) \<and> jlt (Fin 0) (windfallAmount inp) \<and>
      (case windfallAtPeriod inp of None \<Rightarrow> False | Some w \<Rightarrow> jseq w (Fin (real i))))"

definition keepPoint :: "rounding \<Rightarrow> inputs \<Rightarrow> nat \<Rightarrow> bool" where
  "keepPoint fl inp i =
     (keepAll inp \<or> jseq (jmod (Fin (real i)) (sampleStep fl inp)) (Fin 0) \<or>
      jseq (Fin (real i)) (totalPeriodsOf fl inp))"

text \<open>One pass through the body of the \<open>for\<close> loop, for the period \<open>i\<close>.\<close>

definition period :: "rounding \<Rightarrow> inputs \<Rightarrow> nat \<Rightarrow> vars \<Rightarrow> vars" where
  "period fl inp i s =
     (let b0 = (if windfallFires inp i then jadd fl (v_balance s) (windfallAmount inp)
                else v_balance s);
          c0 = (if windfallFires inp i then jadd fl (v_totalContrib s) (windfallAmount inp)
                else v_totalContrib s);
          beforeInterest = jadd fl b0 (contributionPerPayday inp);
          c1 = jadd fl c0 (contributionPerPayday inp);
          b1 = jmul fl beforeInterest (jadd fl (Fin 1) (rPerPeriod fl inp));
          p = \<lparr>periodIndex = i,
               yearIndex = jdiv fl (Fin (real i)) (payPeriodsPerYear inp),
               balance = b1, totalContrib = c1,
               interestEarned = jsub fl (jsub fl b1 (startingAmount inp)) c1,
               interestThisPeriod = Some (jsub fl b1 beforeInterest)\<rparr>
      in \<lparr>v_balance = b1, v_totalContrib = c1,
          v_points = (if keepPoint fl inp i then v_points s @ [p] else v_points s)\<rparr>)"

text \<open>
  \<open>for (let i = 1; i <= totalPeriods; i++)\<close>. The loop runs while \<open>i <= totalPeriods\<close>:
  not at all when \<open>totalPeriods\<close> is NaN, up to \<open>\<lfloor>totalPeriods\<rfloor>\<close> when it is finite
  (\<open>lastPeriod\<close> is \<open>Some\<close> of that bound), and for ever when it is \<open>+\<infinity>\<close>
  (\<open>lastPeriod\<close> is \<open>None\<close>, and so is the result of \<open>computeProjection\<close>).
\<close>

fun lastPeriod :: "number \<Rightarrow> nat option" where
  "lastPeriod (Fin t) = Some (nat \<lfloor>t\<rfloor>)"
| "lastPeriod NaN = Some 0"
| "lastPeriod NInf = Some 0"
| "lastPeriod PInf = None"

function periods :: "rounding \<Rightarrow> inputs \<Rightarrow> nat \<Rightarrow> nat \<Rightarrow> vars \<Rightarrow> vars" where
  "periods fl inp n i s = (if i \<le> n then periods fl inp n (Suc i) (period fl inp i s) else s)"
  by pat_completeness auto
termination
  by (relation "measure (\<lambda>(fl, inp, n, i, s). Suc n - i)") auto

definition computeProjection :: "rounding \<Rightarrow> inputs \<Rightarrow> projection option" where
  "computeProjection fl inp =
     (case lastPeriod (totalPeriodsOf fl inp) of
        None \<Rightarrow> None
      | Some n \<Rightarrow>
          (let s = periods fl inp n 1 (initialVars fl inp)
           in Some \<lparr>years = yearsOf fl inp, totalPeriods = totalPeriodsOf fl inp,
                    finalBalance = v_balance s, finalContrib = v_totalContrib s,
                    finalInterest =
                      jsub fl (jsub fl (v_balance s) (startingAmount inp)) (v_totalContrib s),
                    points = v_points s\<rparr>))"

section \<open>The windfall scheduler\<close>

text \<open>
  \<open>clampInt(n, min, max)\<close>; the argument \<open>n\<close> is the Number that \<open>Number(n)\<close> gives (NaN
  for a string that is not a number).
\<close>

definition clampInt :: "number \<Rightarrow> number \<Rightarrow> number \<Rightarrow> number" where
  "clampInt n lo hi =
     (let v = jround n in if \<not> isFinite v then lo else jmin hi (jmax lo v))"

text \<open>
  \<open>windfallPeriodFromChoice\<close>, with the fields of its argument object as arguments.
  \<open>when\<close> is a string; the empty string stands for every falsy value. The result \<open>null\<close>
  is \<open>None\<close>.
\<close>

definition windfallPeriodFromChoice ::
  "rounding \<Rightarrow> string \<Rightarrow> number \<Rightarrow> number \<Rightarrow> number \<Rightarrow> number \<Rightarrow> number \<Rightarrow> number
     \<Rightarrow> number option" where
  "windfallPeriodFromChoice fl when atYear atAge atPayday age perYear nPeriods =
     (if when = [] then None
      else if when = ''none'' then None
      else if when = ''now'' then Some (Fin 1)
      else if when = ''year'' then
        (let y = clampInt atYear (Fin 1) (Fin 80)
         in Some (clampInt (jmul fl y perYear) (Fin 1) nPeriods))
      else if when = ''age'' then
        (let targetAge = clampInt atAge age (jadd fl age (Fin 80));
             yearsFromNow = jmax (Fin 0) (jsub fl targetAge age)
         in Some (clampInt (jmul fl yearsFromNow perYear) (Fin 1) nPeriods))
      else if when = ''payday'' then Some (clampInt atPayday (Fin 1) nPeriods)
      else None)"

section \<open>Axis ticks\<close>

text \<open>\<open>Math.log10\<close>: \<open>-\<infinity>\<close> at 0, NaN below 0.\<close>

fun jlog10 :: "rounding \<Rightarrow> number \<Rightarrow> number" where
  "jlog10 fl (Fin x) = (if 0 < x then Fin (fl (log 10 x)) else if x = 0 then NInf else NaN)"
| "jlog10 fl PInf = PInf"
| "jlog10 fl NInf = NaN"
| "jlog10 fl NaN = NaN"

text \<open>
  The choice \<open>scaled <= 1 ? 1 : scaled <= 2 ? 2 : scaled <= 5 ? 5 : 10\<close>, which
  \<open>niceStep\<close>, \<open>niceCeil\<close> and \<open>niceRoundUp\<close> share.
\<close>

definition nice :: "number \<Rightarrow> number" where
  "nice scaled =
     (if jle scaled (Fin 1) then Fin 1
      else if jle scaled (Fin 2) then Fin 2
      else if jle scaled (Fin 5) then Fin 5 else Fin 10)"

definition niceStep :: "rounding \<Rightarrow> number \<Rightarrow> number \<Rightarrow> number" where
  "niceStep fl span' targetTicks =
     (if \<not> isFinite span' \<or> jle span' (Fin 0) then Fin 1
      else (let raw = jdiv fl span' (jmax (Fin 1) targetTicks);
                pow = jpow fl (Fin 10) (jfloor (jlog10 fl raw));
                scaled = jdiv fl raw pow
            in jmul fl (nice scaled) pow))"

definition niceCeil :: "rounding \<Rightarrow> number \<Rightarrow> number" where
  "niceCeil fl n =
     (if \<not> isFinite n \<or> jle n (Fin 0) then Fin 1
      else (let pow = jpow fl (Fin 10) (jfloor (jlog10 fl n));
                scaled = jdiv fl n pow
            in jmul fl (nice scaled) pow))"

text \<open>\<open>niceRoundUp\<close> has the body of \<open>niceCeil\<close>.\<close>

definition niceRoundUp :: "rounding \<Rightarrow> number \<Rightarrow> number" where
  "niceRoundUp fl n =
     (if \<not> isFinite n \<or> jle n (Fin 0) then Fin 1
      else (let pow = jpow fl (Fin 10) (jfloor (jlog10 fl n));
                scaled = jdiv fl n pow
            in jmul fl (nice scaled) pow))"

text \<open>
  An array holds at most \<open>2^32 - 1\<close> elements: \<open>push\<close> on an array of that length throws
  a RangeError. The loops of \<open>pickTicks\<close> and \<open>makeLogTicks\<close> push until a Number passes
  a bound, and nothing but that length stops them when it never does; so the arrays of
  ticks are modelled with their greatest length, and the error thrown is a result
  \<open>Inl RangeError\<close>. (The array of points of \<open>computeProjection\<close> above is a list without
  that limit: it holds at most \<open>totalPeriods + 1\<close> points, and the inputs of the app, ages
  up to 120 and at most 365 pay periods a year, give no more than 43800 periods.)
\<close>

datatype error = RangeError

definition maxLength :: nat where
  "maxLength = 4294967295"

definition push :: "number list \<Rightarrow> number \<Rightarrow> error + number list" where
  "push a v = (if length a < maxLength then Inr (a @ [v]) else Inl RangeError)"

text \<open>
  The loop \<open>for (let v = 0; v <= niceMax + step / 2; v += step) ticks.push(v)\<close> of
  \<open>pickTicks\<close>, from the value \<open>v\<close> on. Nothing in the loop makes \<open>v\<close> pass the limit (a
  step of 0 does not): the loop ends when \<open>v\<close> has passed it or when the array is full.
\<close>

function tickLoop ::
  "rounding \<Rightarrow> number \<Rightarrow> number \<Rightarrow> number \<Rightarrow> number list \<Rightarrow> error + number list" where
  "tickLoop fl limit step v ticks =
     (if jle v limit
      then (case push ticks v of
              Inl e \<Rightarrow> Inl e
            | Inr ticks' \<Rightarrow> tickLoop fl limit step (jadd fl v step) ticks')
      else Inr ticks)"
  by pat_completeness auto
termination
  by (relation "measure (\<lambda>(fl, limit, step, v, ticks). maxLength - length ticks)")
    (auto simp: push_def split: if_splits)

definition pickTicks :: "rounding \<Rightarrow> number \<Rightarrow> number \<Rightarrow> number \<Rightarrow> error + number list" where
  "pickTicks fl min' max' targetTicks =
     (if \<not> isFinite min' \<or> \<not> isFinite max' \<or> jle max' min' then Inr []
      else (let span' = jsub fl max' min';
                step = niceStep fl span' targetTicks;
                niceMax = jmax step (niceCeil fl max')
            in tickLoop fl (jadd fl niceMax (jdiv fl step (Fin 2))) step (Fin 0) []))"

text \<open>
  \<open>makeLogTicks\<close>. \<open>Number(max) || 1\<close> replaces NaN and 0 by 1; the argument is the
  Number that \<open>Number(max)\<close> gives.
\<close>

definition orOne :: "number \<Rightarrow> number" where
  "orOne x = (if x = NaN \<or> x = Fin 0 then Fin 1 else x)"

text \<open>The inner loop \<open>for (const b of bases)\<close>, for one power of ten.\<close>

fun pushBases ::
  "rounding \<Rightarrow> number \<Rightarrow> number \<Rightarrow> number list \<Rightarrow> number list \<Rightarrow> error + number list" where
  "pushBases fl m pow [] ticks = Inr ticks"
| "pushBases fl m pow (b # bases) ticks =
     (let v = jmul fl b pow
      in if jle v m
         then (case push ticks v of
                 Inl e \<Rightarrow> Inl e
               | Inr ticks' \<Rightarrow> pushBases fl m pow bases ticks')
         else pushBases fl m pow bases ticks)"

text \<open>
  The outer loop \<open>for (let p = 0; p <= maxPow; p++)\<close>, from \<open>p\<close> on. The counter is an
  integer: counting is exact below \<open>2^53\<close>, and the array is full long before. For a
  \<open>maxPow\<close> of \<open>+\<infinity>\<close> the loop ends only if a push throws; a loop that does not end has
  the value \<open>None\<close>.
\<close>

partial_function (option) decades ::
  "rounding \<Rightarrow> number \<Rightarrow> number \<Rightarrow> int \<Rightarrow> number list \<Rightarrow> (error + number list) option" where
  "decades fl m maxPow p ticks =
     (if jle (Fin (of_int p)) maxPow
      then (case pushBases fl m (jpow fl (Fin 10) (Fin (of_int p))) [Fin 1, Fin 2, Fin 5] ticks of
              Inl e \<Rightarrow> Some (Inl e)
            | Inr ticks' \<Rightarrow> decades fl m maxPow (p + 1) ticks')
      else Some (Inr ticks))"

text \<open>
  \<open>sort((a, b) => a - b)\<close>: the comparator is positive exactly when \<open>a > b\<close>. On finite
  numbers every stable sort gives the list that insertion gives.
\<close>

fun jinsert :: "number \<Rightarrow> number list \<Rightarrow> number list" where
  "jinsert x [] = [x]"
| "jinsert x (y # ys) = (if jlt y x then y # jinsert x ys else x # y # ys)"

definition jsort :: "number list \<Rightarrow> number list" where
  "jsort xs = foldr jinsert xs []"

text \<open>\<open>Array.from(new Set(ticks))\<close> keeps the first occurrence of every value.\<close>

definition dedupe :: "number list \<Rightarrow> number list" where
  "dedupe ticks = rev (remdups (rev ticks))"

text \<open>The thinning: 0, the entries of odd index before the last, and the last.\<close>

definition thin :: "number list \<Rightarrow> number list" where
  "thin uniq =
     Fin 0 # map (\<lambda>i. uniq ! i) (filter (\<lambda>i. i mod 2 = 1) [1..<length uniq - 1])
       @ [uniq ! (length uniq - 1)]"

definition makeLogTicks :: "rounding \<Rightarrow> number \<Rightarrow> (error + number list) option" where
  "makeLogTicks fl max' =
     (let m = jmax (Fin 1) (orOne max');
          maxPow = jfloor (jlog10 fl m)
      in case decades fl m maxPow 0 [Fin 0] of
           None \<Rightarrow> None
         | Some (Inl e) \<Rightarrow> Some (Inl e)
         | Some (Inr ticks0) \<Rightarrow>
             (case (if \<not> jseq (last ticks0) m then push ticks0 m else Inr ticks0) of
                Inl e \<Rightarrow> Some (Inl e)
              | Inr ticks \<Rightarrow>
                  (let uniq = jsort (dedupe ticks)
                   in Some (Inr (if length uniq \<le> 7 then uniq else thin uniq)))))"

section \<open>The eased maximum of the vertical axis\<close>

text \<open>
  The state \<open>yMaxDisplay\<close> and the ref \<open>lastScaleResetToken\<close> of \<open>App\<close>, and one run of
  the effect that updates them from \<open>computedYMax\<close> and \<open>scaleResetToken\<close> (a counter
  that the reset button increments). \<open>!prev\<close> holds for 0 and for NaN; the literals are
  rounded as the Number type rounds them.
\<close>

record axis =
  yMaxDisplay :: number
  lastScaleResetToken :: nat

definition falsy :: "number \<Rightarrow> bool" where
  "falsy x = (x = Fin 0 \<or> x = NaN)"

definition updateYMaxDisplay :: "rounding \<Rightarrow> number \<Rightarrow> nat \<Rightarrow> axis \<Rightarrow> axis" where
  "updateYMaxDisplay fl computedYMax scaleResetToken a =
     (let prev = yMaxDisplay a
      in if lastScaleResetToken a \<noteq> scaleResetToken
         then \<lparr>yMaxDisplay = computedYMax, lastScaleResetToken = scaleResetToken\<rparr>
         else a\<lparr>yMaxDisplay :=
           (if falsy prev then computedYMax
            else if jle prev computedYMax then computedYMax
            else if jlt computedYMax (jmul fl prev (Fin (fl (75 / 100))))
              then jmax computedYMax (jmul fl prev (Fin (fl (96 / 100))))
            else if jlt computedYMax prev
              then jmax computedYMax (jmul fl prev (Fin (fl (985 / 1000))))
            else prev)\<rparr>)"

section \<open>Rounding to binary64\<close>

text \<open>
  Round to nearest, ties to even, on a significand of 53 bits: \<open>u\<close> is the distance
  between neighbouring binary64 values in the binade of \<open>x\<close>, and \<open>x\<close> is rounded to
  a multiple of \<open>u\<close>. The exponent is unbounded.
\<close>

definition rne :: "real \<Rightarrow> int" where
  "rne y =
     (let f = \<lfloor>y\<rfloor>; d = y - of_int f
      in if d < 1 / 2 then f else if 1 / 2 < d then f + 1 else if even f then f else f + 1)"

definition rd53 :: rounding where
  "rd53 x =
     (if x = 0 then 0
      else (let u = 2 powr (of_int (\<lfloor>log 2 \<bar>x\<bar>\<rfloor> - 52)) in u * of_int (rne (x / u))))"

text \<open>The binade of \<open>x\<close> and the distance \<open>u\<close> of \<open>rd53\<close>, named for the proofs.\<close>

definition binade :: "real \<Rightarrow> int" where
  "binade x = \<lfloor>log 2 \<bar>x\<bar>\<rfloor>"

definition ulp :: "real \<Rightarrow> real" where
  "ulp x = 2 powr of_int (binade x - 52)"

section \<open>Inputs used as examples\<close>

text \<open>
  Scenario A of the specification: a year of monthly paydays without growth, all points
  kept.
\<close>

definition scenarioA :: inputs where
  "scenarioA =
     \<lparr>currentAge = Fin 60, retirementAge = Fin 61, startingAmount = Fin 1000,
      contributionPerPayday = Fin 100, annualRatePct = Fin 0, payPeriodsPerYear = Fin 12,
      windfallAmount = Fin 0, windfallAtPeriod = None, maxPoints = Fin 0\<rparr>"

text \<open>Scenario B: Scenario A with a windfall of 500 that the scheduler places "now".\<close>

definition scenarioB :: inputs where
  "scenarioB =
     scenarioA\<lparr>windfallAmount := Fin 500,
       windfallAtPeriod :=
         windfallPeriodFromChoice exact ''now'' (Fin 1) (Fin 45) (Fin 1) (Fin 60) (Fin 12)
           (Fin 12)\<rparr>"

text \<open>The defaults of the form: biweekly paydays from age 35 to 65, at most 240 points.\<close>

definition typicalPlan :: inputs where
  "typicalPlan =
     \<lparr>currentAge = Fin 35, retirementAge = Fin 65, startingAmount = Fin 0,
      contributionPerPayday = Fin 50, annualRatePct = Fin 7, payPeriodsPerYear = Fin 26,
      windfallAmount = Fin 0, windfallAtPeriod = None, maxPoints = Fin 240\<rparr>"

text \<open>
  One yearly payday of 3 on a starting amount of \<open>2^53\<close>, where neighbouring binary64
  values are 2 apart, and the result \<open>computeProjection\<close> returns for it under \<open>rd53\<close>.
\<close>

definition roundedRun :: inputs where
  "roundedRun =
     \<lparr>currentAge = Fin 0, retirementAge = Fin 1, startingAmount = Fin 9007199254740992,
      contributionPerPayday = Fin 3, annualRatePct = Fin 0, payPeriodsPerYear = Fin 1,
      windfallAmount = Fin 0, windfallAtPeriod = None, maxPoints = Fin 0\<rparr>"

definition roundedResult :: projection where
  "roundedResult =
     \<lparr>years = Fin 1, totalPeriods = Fin 1, finalBalance = Fin 9007199254740996,
      finalContrib = Fin 3, finalInterest = Fin 1,
      points =
        [\<lparr>periodIndex = 0, yearIndex = Fin 0, balance = Fin 9007199254740992,
          totalContrib = Fin 0, interestEarned = Fin 0, interestThisPeriod = None\<rparr>,
         \<lparr>periodIndex = 1, yearIndex = Fin 1, balance = Fin 9007199254740996,
          totalContrib = Fin 3, interestEarned = Fin 1, interestThisPeriod = Some (Fin 0)\<rparr>]\<rparr>"

text \<open>A negative amount per payday (the form accepts a minus sign), and its result.\<close>

definition withdrawal :: inputs where
  "withdrawal =
     \<lparr>currentAge = Fin 60, retirementAge = Fin 61, startingAmount = Fin 1000,
      contributionPerPayday = Fin (- 100), annualRatePct = Fin 0, payPeriodsPerYear = Fin 1,
      windfallAmount = Fin 0, windfallAtPeriod = None, maxPoints = Fin 0\<rparr>"

definition withdrawalResult :: projection where
  "withdrawalResult =
     \<lparr>years = Fin 1, totalPeriods = Fin 1, finalBalance = Fin 900,
      finalContrib = Fin (- 100), finalInterest = Fin 0,
      points =
        [\<lparr>periodIndex = 0, yearIndex = Fin 0, balance = Fin 1000,
          totalContrib = Fin 0, interestEarned = Fin 0, interestThisPeriod = None\<rparr>,
         \<lparr>periodIndex = 1, yearIndex = Fin 1, balance = Fin 900,
          totalContrib = Fin (- 100), interestEarned = Fin 0,
          interestThisPeriod = Some (Fin 0)\<rparr>]\<rparr>"

text \<open>
  A windfall scheduled after the last payday, a negative windfall, and a schedule without
  paydays.
\<close>

definition lateWindfall :: inputs where
  "lateWindfall = scenarioA\<lparr>windfallAmount := Fin 500, windfallAtPeriod := Some (Fin 13)\<rparr>"

definition negativeWindfall :: inputs where
  "negativeWindfall = scenarioA\<lparr>windfallAmount := Fin (- 5), windfallAtPeriod := Some (Fin 1)\<rparr>"

definition noPaydays :: inputs where
  "noPaydays = scenarioA\<lparr>payPeriodsPerYear := Fin 0\<rparr>"

text \<open>The result for it: the initial point alone.\<close>

definition noPaydaysResult :: projection where
  "noPaydaysResult =
     \<lparr>years = Fin 1, totalPeriods = Fin 0, finalBalance = Fin 1000, finalContrib = Fin 0,
      finalInterest = Fin 0,
      points =
        [\<lparr>periodIndex = 0, yearIndex = Fin 0, balance = Fin 1000, totalContrib = Fin 0,
          interestEarned = Fin 0, interestThisPeriod = None\<rparr>]\<rparr>"

text \<open>The form's defaults with a windfall of \<open>-5\<close> at payday 52, the first of year 2.\<close>

definition unfundedWindfall :: inputs where
  "unfundedWindfall =
     typicalPlan\<lparr>windfallAmount := Fin (- 5), windfallAtPeriod := Some (Fin 52)\<rparr>"

section \<open>Notions used in the statements and proofs\<close>

text \<open>
  The resolved windfall period is \<open>null\<close>, not finite, or outside
  \<open>[1, totalPeriods]\<close>.
\<close>

definition windfallOutOfRange :: "rounding \<Rightarrow> inputs \<Rightarrow> bool" where
  "windfallOutOfRange fl inp =
     (case windfallAtPeriod inp of
        None \<Rightarrow> True
      | Some w \<Rightarrow> \<not> isFinite w \<or> jlt w (Fin 1) \<or> jlt (totalPeriodsOf fl inp) w)"

text \<open>
  The order of two points by \<open>totalContrib\<close>, and the invariant of the loop behind its
  monotonicity: the running total is a finite value that rounding leaves alone, the points
  pushed so far are in order, and none exceeds the running total.
\<close>

definition contribOrder :: "point \<Rightarrow> point \<Rightarrow> bool" where
  "contribOrder p q = jle (totalContrib p) (totalContrib q)"

definition contribInv :: "rounding \<Rightarrow> vars \<Rightarrow> bool" where
  "contribInv fl s =
     (case v_totalContrib s of
        Fin t \<Rightarrow> fl t = t \<and> sorted_wrt contribOrder (v_points s) \<and>
                 list_all (\<lambda>p. jle (totalContrib p) (Fin t)) (v_points s)
      | _ \<Rightarrow> False)"

text \<open>A finite Number that is at least 0.\<close>

definition nonneg :: "number \<Rightarrow> bool" where
  "nonneg x = (case x of Fin v \<Rightarrow> 0 \<le> v | _ \<Rightarrow> False)"

section \<open>The loop of the simulator\<close>

declare periods.simps [simp del]

lemma periods_unfold:
  "periods fl inp n i s = (if i \<le> n then periods fl inp n (Suc i) (period fl inp i s) else s)"
  by (rule periods.simps)

lemma period_index:
  "map periodIndex (v_points (period fl inp i s)) =
     map periodIndex (v_points s) @ (if keepPoint fl inp i then [i] else [])"
  by (simp add: period_def Let_def)

lemma periods_index:
  "map periodIndex (v_points (periods fl inp n i s)) =
     map periodIndex (v_points s) @ filter (keepPoint fl inp) [i..<Suc n]"
proof (induction fl inp n i s rule: periods.induct)
  case (1 fl inp n i s)
  show ?case
  proof (cases "i \<le> n")
    case True
    then have "[i..<Suc n] = i # [Suc i..<Suc n]"
      by (simp add: upt_conv_Cons)
    with True 1 show ?thesis
      by (subst periods_unfold) (simp add: period_index)
  next
    case False
    then show ?thesis
      by (subst periods_unfold) simp
  qed
qed


lemma jmax0_int: "\<exists>n. jmax (Fin 0) (Fin (of_int k)) = Fin (real n)"
proof (cases "0 \<le> k")
  case True
  then have "jmax (Fin 0) (Fin (of_int k)) = Fin (real (nat k))" by (simp add: jmax_def)
  then show ?thesis by blast
next
  case False
  then have "jmax (Fin 0) (Fin (of_int k)) = Fin (real 0)" by (simp add: jmax_def)
  then show ?thesis by blast
qed

lemma totalPeriods_cases:
  "totalPeriodsOf fl inp = NaN \<or> totalPeriodsOf fl inp = PInf \<or> (\<exists>n. totalPeriodsOf fl inp = Fin (real n))"
proof (cases "jmul fl (yearsOf fl inp) (payPeriodsPerYear inp)")
  case (Fin x)
  then show ?thesis
    unfolding totalPeriodsOf_def using jmax0_int[of "\<lfloor>x + 1 / 2\<rfloor>"] by simp
next
  case PInf
  then show ?thesis by (simp add: totalPeriodsOf_def jmax_def)
next
  case NInf
  then have "totalPeriodsOf fl inp = Fin (real 0)" by (simp add: totalPeriodsOf_def jmax_def)
  then show ?thesis by blast
next
  case NaN
  then show ?thesis by (simp add: totalPeriodsOf_def jmax_def)
qed

lemma finite_totalPeriods:
  assumes "isFinite (currentAge inp)" "isFinite (retirementAge inp)" "isFinite (payPeriodsPerYear inp)"
  shows "\<exists>n. totalPeriodsOf fl inp = Fin (real n)"
proof -
  obtain a b p where "currentAge inp = Fin a" "retirementAge inp = Fin b" "payPeriodsPerYear inp = Fin p"
    using assms by (metis isFinite.elims(2))
  then have "isFinite (totalPeriodsOf fl inp)"
    by (simp add: totalPeriodsOf_def yearsOf_def jmax_def)
  then show ?thesis using totalPeriods_cases[of fl inp] by auto
qed

lemma computeProjection_Some:
  assumes "computeProjection fl inp = Some r"
  obtains n where "lastPeriod (totalPeriodsOf fl inp) = Some n"
    and "r = \<lparr>years = yearsOf fl inp, totalPeriods = totalPeriodsOf fl inp,
              finalBalance = v_balance (periods fl inp n 1 (initialVars fl inp)),
              finalContrib = v_totalContrib (periods fl inp n 1 (initialVars fl inp)),
              finalInterest =
                jsub fl (jsub fl (v_balance (periods fl inp n 1 (initialVars fl inp)))
                                 (startingAmount inp))
                        (v_totalContrib (periods fl inp n 1 (initialVars fl inp))),
              points = v_points (periods fl inp n 1 (initialVars fl inp))\<rparr>"
  using assms by (auto simp: computeProjection_def Let_def split: option.splits)

lemma computeProjection_returns:
  assumes "isFinite (currentAge inp)" "isFinite (retirementAge inp)"
    "isFinite (payPeriodsPerYear inp)"
  shows "\<exists>r. computeProjection fl inp = Some r"
proof -
  obtain n where "totalPeriodsOf fl inp = Fin (real n)"
    using finite_totalPeriods[OF assms] by blast
  then show ?thesis by (simp add: computeProjection_def Let_def)
qed

lemma run_totalPeriods:
  "computeProjection fl inp = Some r \<Longrightarrow> totalPeriods r = totalPeriodsOf fl inp"
  by (auto elim!: computeProjection_Some)

section \<open>Properties of the rounding\<close>

lemma rd53_0 [simp]: "rd53 0 = 0" by (simp add: rd53_def)

text \<open>
  \<open>rd53\<close> on the numbers of the run from \<open>2^53\<close>: in the binade of \<open>2^53\<close> the values
  are 2 apart, and a tie goes to the even significand.
\<close>

lemma rd53_binade:
  assumes "2 powr of_int k \<le> \<bar>x\<bar>" "\<bar>x\<bar> < 2 powr of_int (k + 1)"
  shows "rd53 x = 2 powr of_int (k - 52) * of_int (rne (x / 2 powr of_int (k - 52)))"
proof -
  have "0 < (2::real) powr of_int k" by simp
  then have pos: "0 < \<bar>x\<bar>" using assms(1) by linarith
  then have "\<lfloor>log 2 \<bar>x\<bar>\<rfloor> = k"
    using assms by (simp add: floor_log_eq_powr_iff)
  moreover have "x \<noteq> 0" using pos by simp
  ultimately show ?thesis by (simp add: rd53_def Let_def)
qed

lemma rd53_1 [simp]: "rd53 1 = 1"
  using rd53_binade[of 0 1] by (simp add: rne_def powr_neg_numeral)

lemma rd53_3 [simp]: "rd53 3 = 3"
  using rd53_binade[of 1 3] by (simp add: rne_def powr_neg_numeral)

lemma rd53_4 [simp]: "rd53 4 = 4"
  using rd53_binade[of 2 4] by (simp add: rne_def powr_neg_numeral)

lemma rd53_tie_up [simp]: "rd53 9007199254740995 = 9007199254740996"
  using rd53_binade[of 53 9007199254740995] by (simp add: rne_def)

lemma rd53_even [simp]: "rd53 9007199254740996 = 9007199254740996"
  using rd53_binade[of 53 9007199254740996] by (simp add: rne_def)

lemma rd53_tie_down [simp]: "rd53 9007199254740993 = 9007199254740992"
  using rd53_binade[of 53 9007199254740993] by (simp add: rne_def)

lemma rne_int: "rne (of_int k) = k"
  by (simp add: rne_def)

lemma rne_floor: "rne y = \<lfloor>y\<rfloor> \<or> rne y = \<lfloor>y\<rfloor> + 1"
  by (simp add: rne_def Let_def)

lemma rne_mono:
  assumes "a \<le> b"
  shows "rne a \<le> rne b"
proof (cases "\<lfloor>a\<rfloor> < \<lfloor>b\<rfloor>")
  case True
  then show ?thesis using rne_floor[of a] rne_floor[of b] by linarith
next
  case False
  then have f: "\<lfloor>a\<rfloor> = \<lfloor>b\<rfloor>" using floor_mono[OF assms] by linarith
  then have "a - of_int \<lfloor>a\<rfloor> \<le> b - of_int \<lfloor>b\<rfloor>" using assms by simp
  then show ?thesis unfolding rne_def Let_def f by auto
qed

lemma rne_minus: "rne (- y) = - rne y"
proof (cases "y = of_int \<lfloor>y\<rfloor>")
  case True
  then have "rne y = \<lfloor>y\<rfloor>" by (metis rne_int)
  moreover have "- y = of_int (- \<lfloor>y\<rfloor>)" using True by simp
  then have "rne (- y) = - \<lfloor>y\<rfloor>" by (metis rne_int)
  ultimately show ?thesis by simp
next
  case False
  then have c: "\<lceil>y\<rceil> = \<lfloor>y\<rfloor> + 1"
    by (metis ceiling_altdef)
  have fl: "\<lfloor>- y\<rfloor> = - \<lfloor>y\<rfloor> - 1"
    using c by (simp add: floor_minus)
  define f where "f = \<lfloor>y\<rfloor>"
  define d where "d = y - of_int f"
  have d: "0 < d" "d < 1"
    using False unfolding d_def f_def by (linarith, linarith)
  have "- y - of_int (- f - 1) = 1 - d" by (simp add: d_def)
  moreover have "even (- f - 1) = odd f" by simp
  ultimately show ?thesis
    unfolding rne_def Let_def fl f_def[symmetric] d_def[symmetric]
    using d by (auto simp: field_simps)
qed

lemma rd53_alt: "x \<noteq> 0 \<Longrightarrow> rd53 x = ulp x * of_int (rne (x / ulp x))"
  by (simp add: rd53_def ulp_def binade_def Let_def)

lemma ulp_pos: "0 < ulp x"
  by (simp add: ulp_def)

lemma binade_bounds:
  assumes "x \<noteq> 0"
  shows "2 powr of_int (binade x) \<le> \<bar>x\<bar>" "\<bar>x\<bar> < 2 powr of_int (binade x + 1)"
proof -
  have "0 < \<bar>x\<bar>" using assms by simp
  then have "\<lfloor>log 2 \<bar>x\<bar>\<rfloor> = binade x \<longleftrightarrow>
      2 powr of_int (binade x) \<le> \<bar>x\<bar> \<and> \<bar>x\<bar> < 2 powr of_int (binade x + 1)"
    by (intro floor_log_eq_powr_iff) simp_all
  then show "2 powr of_int (binade x) \<le> \<bar>x\<bar>" "\<bar>x\<bar> < 2 powr of_int (binade x + 1)"
    by (simp_all add: binade_def)
qed

lemma binade_eqI:
  assumes "2 powr of_int k \<le> \<bar>x\<bar>" "\<bar>x\<bar> < 2 powr of_int (k + 1)"
  shows "binade x = k"
proof -
  have "0 < (2::real) powr of_int k" by simp
  then have "0 < \<bar>x\<bar>" using assms(1) by linarith
  then show ?thesis
    unfolding binade_def using assms by (simp add: floor_log_eq_powr_iff)
qed

lemma ulp_scale:
  "ulp x * 2 ^ 52 = 2 powr of_int (binade x)" "ulp x * 2 ^ 53 = 2 powr of_int (binade x + 1)"
  by (simp_all add: ulp_def powr_diff powr_add)

lemma scaled_bounds:
  assumes "x \<noteq> 0"
  shows "2 ^ 52 \<le> \<bar>x\<bar> / ulp x" "\<bar>x\<bar> / ulp x < 2 ^ 53"
  using binade_bounds[OF assms] ulp_pos[of x] ulp_scale[of x]
  by (simp_all add: pos_le_divide_eq pos_divide_less_eq mult.commute)

lemma binade_minus: "binade (- x) = binade x"
  by (simp add: binade_def)

lemma ulp_minus: "ulp (- x) = ulp x"
  by (simp add: ulp_def binade_minus)

lemma rd53_minus: "rd53 (- x) = - rd53 x"
proof (cases "x = 0")
  case True
  then show ?thesis by (simp add: rd53_def)
next
  case False
  then show ?thesis by (simp add: rd53_alt ulp_minus rne_minus)
qed

lemma rd53_pos_bounds:
  assumes "0 < x"
  shows "2 powr of_int (binade x) \<le> rd53 x" "rd53 x \<le> 2 powr of_int (binade x + 1)"
proof -
  have x: "x \<noteq> 0" "\<bar>x\<bar> = x" using assms by simp_all
  from scaled_bounds[OF x(1)] have b: "of_int (2 ^ 52) \<le> x / ulp x" "x / ulp x \<le> of_int (2 ^ 53)"
    by (simp_all add: x(2))
  have "rne (of_int (2 ^ 52)) \<le> rne (x / ulp x)" by (rule rne_mono[OF b(1)])
  then have lo: "(2::int) ^ 52 \<le> rne (x / ulp x)" by (simp only: rne_int)
  have "rne (x / ulp x) \<le> rne (of_int (2 ^ 53))" by (rule rne_mono[OF b(2)])
  then have hi: "rne (x / ulp x) \<le> (2::int) ^ 53" by (simp only: rne_int)
  have "ulp x * 2 ^ 52 \<le> ulp x * of_int (rne (x / ulp x))"
    using lo ulp_pos[of x] by (intro mult_left_mono) (simp_all add: of_int_le_iff[symmetric] del: of_int_le_iff)
  then show "2 powr of_int (binade x) \<le> rd53 x"
    unfolding ulp_scale rd53_alt[OF x(1)] .
  have "ulp x * of_int (rne (x / ulp x)) \<le> ulp x * 2 ^ 53"
    using hi ulp_pos[of x] by (intro mult_left_mono) (simp_all add: of_int_le_iff[symmetric] del: of_int_le_iff)
  then show "rd53 x \<le> 2 powr of_int (binade x + 1)"
    unfolding ulp_scale rd53_alt[OF x(1)] .
qed

lemma rd53_nonneg: "0 \<le> x \<Longrightarrow> 0 \<le> rd53 x"
proof (cases "x = 0")
  case False
  assume "0 \<le> x"
  with False have "0 < x" by simp
  have "0 < (2::real) powr of_int (binade x)" by simp
  with rd53_pos_bounds(1)[OF \<open>0 < x\<close>] show ?thesis
    by linarith
qed (simp add: rd53_def)

lemma rd53_nonpos: "x \<le> 0 \<Longrightarrow> rd53 x \<le> 0"
  using rd53_nonneg[of "- x"] by (simp add: rd53_minus)

lemma binade_mono:
  assumes "0 < x" "x \<le> y"
  shows "binade x \<le> binade y"
  unfolding binade_def using assms by (intro floor_mono) (simp add: log_le_cancel_iff)

lemma rd53_mono_pos:
  assumes "0 < x" "x \<le> y"
  shows "rd53 x \<le> rd53 y"
proof (cases "binade x = binade y")
  case True
  then have u: "ulp x = ulp y" by (simp add: ulp_def)
  have "x / ulp y \<le> y / ulp y"
    using assms(2) ulp_pos[of y] by (simp add: divide_right_mono)
  then have "rne (x / ulp y) \<le> rne (y / ulp y)" by (rule rne_mono)
  then have "ulp y * of_int (rne (x / ulp y)) \<le> ulp y * of_int (rne (y / ulp y))"
    using ulp_pos[of y] by (intro mult_left_mono) simp_all
  then show ?thesis
    using assms by (simp add: rd53_alt u)
next
  case False
  then have "binade x + 1 \<le> binade y"
    using binade_mono[OF assms] by simp
  then have "(2::real) powr of_int (binade x + 1) \<le> 2 powr of_int (binade y)"
    by (intro powr_mono) simp_all
  moreover have "0 < y" using assms by simp
  ultimately show ?thesis
    using rd53_pos_bounds(2)[OF assms(1)] rd53_pos_bounds(1)[of y] by linarith
qed

lemma rd53_mono: "x \<le> y \<Longrightarrow> rd53 x \<le> rd53 y"
proof -
  assume xy: "x \<le> y"
  consider "0 < x" | "x \<le> 0" "0 \<le> y" | "y < 0" by linarith
  then show ?thesis
  proof cases
    case 1
    then show ?thesis using xy by (rule rd53_mono_pos)
  next
    case 2
    then show ?thesis using rd53_nonpos[of x] rd53_nonneg[of y] by linarith
  next
    case 3
    then have "0 < - y" "- y \<le> - x" using xy by simp_all
    from rd53_mono_pos[OF this] show ?thesis by (simp add: rd53_minus)
  qed
qed

lemma rd53_representable:
  assumes "0 < u" "u = 2 powr of_int (b - 52)" "2 ^ 52 \<le> k" "k < 2 ^ 53"
  shows "rd53 (u * of_int k) = u * of_int k"
proof -
  define y where "y = u * of_int k"
  have k: "(2::real) ^ 52 \<le> of_int k" "of_int k < (2::real) ^ 53"
    using assms(3,4) by (simp_all add: of_int_le_iff[symmetric] of_int_less_iff[symmetric]
        del: of_int_le_iff of_int_less_iff)
  have s: "u * 2 ^ 52 = 2 powr of_int b" "u * 2 ^ 53 = 2 powr of_int (b + 1)"
    by (simp_all add: assms(2) powr_diff powr_add)
  have "u * 2 ^ 52 \<le> y" "y < u * 2 ^ 53"
    unfolding y_def using k assms(1) by simp_all
  then have y: "2 powr of_int b \<le> y" "y < 2 powr of_int (b + 1)"
    unfolding s by simp_all
  have "0 < (2::real) powr of_int b" by simp
  then have pos: "0 < y" using y(1) by linarith
  then have "binade y = b"
    using y by (intro binade_eqI) simp_all
  then have "ulp y = u" by (simp add: ulp_def assms(2))
  moreover have "y / u = of_int k" using assms(1) by (simp add: y_def)
  ultimately have "rd53 y = u * of_int k"
    using pos by (simp add: rd53_alt rne_int)
  then show ?thesis by (simp add: y_def)
qed

lemma rd53_idem_pos:
  assumes "0 < x"
  shows "rd53 (rd53 x) = rd53 x"
proof -
  have x: "x \<noteq> 0" "\<bar>x\<bar> = x" using assms by simp_all
  define k where "k = rne (x / ulp x)"
  from scaled_bounds[OF x(1)] have b: "of_int (2 ^ 52) \<le> x / ulp x" "x / ulp x \<le> of_int (2 ^ 53)"
    by (simp_all add: x(2))
  have "rne (of_int (2 ^ 52)) \<le> rne (x / ulp x)" by (rule rne_mono[OF b(1)])
  then have lo: "(2::int) ^ 52 \<le> k" by (simp only: rne_int k_def)
  have "rne (x / ulp x) \<le> rne (of_int (2 ^ 53))" by (rule rne_mono[OF b(2)])
  then have hi: "k \<le> (2::int) ^ 53" by (simp only: rne_int k_def)
  have r: "rd53 x = ulp x * of_int k" by (simp add: rd53_alt[OF x(1)] k_def)
  show ?thesis
  proof (cases "k < 2 ^ 53")
    case True
    show ?thesis unfolding r
      by (rule rd53_representable[OF ulp_pos _ lo True]) (simp add: ulp_def)
  next
    case False
    then have k: "k = 2 ^ 53" using hi by simp
    have e: "ulp x * of_int k = (2 * ulp x) * of_int (2 ^ 52)"
      by (simp add: k)
    have "rd53 ((2 * ulp x) * of_int (2 ^ 52)) = (2 * ulp x) * of_int (2 ^ 52)"
    proof (rule rd53_representable)
      show "0 < 2 * ulp x" using ulp_pos[of x] by simp
      show "2 * ulp x = 2 powr of_int (binade x + 1 - 52)"
        by (simp add: ulp_def powr_diff powr_add)
    qed simp_all
    then show ?thesis unfolding r e .
  qed
qed

lemma rd53_idem: "rd53 (rd53 x) = rd53 x"
proof -
  consider "0 < x" | "x = 0" | "x < 0" by linarith
  then show ?thesis
  proof cases
    case 1
    then show ?thesis by (rule rd53_idem_pos)
  next
    case 2
    then show ?thesis by (simp add: rd53_def)
  next
    case 3
    then have "rd53 (rd53 (- x)) = rd53 (- x)" by (intro rd53_idem_pos) simp
    then show ?thesis by (simp add: rd53_minus)
  qed
qed

text \<open>
  \<open>rd53\<close> leaves alone every integer below \<open>2^53\<close>, and the few fractions that the
  runs of the tick functions meet.
\<close>

lemma rd53_int:
  assumes "0 < n" "n < 2 ^ 53"
  shows "rd53 (of_int n) = of_int n"
proof -
  define x where "x = (of_int n :: real)"
  have x: "x \<noteq> 0" "\<bar>x\<bar> = x" using assms(1) by (simp_all add: x_def)
  have "x < of_int (2 ^ 53)" unfolding x_def using assms(2) by (simp only: of_int_less_iff)
  then have "x < 2 powr of_int 53" by simp
  moreover have "2 powr of_int (binade x) \<le> x" using binade_bounds(1)[OF x(1)] x(2) by simp
  ultimately have "2 powr of_int (binade x) < (2::real) powr of_int 53" by linarith
  then have "real_of_int (binade x) < real_of_int 53"
    by (subst (asm) powr_less_cancel_iff) simp_all
  then have "binade x < 53" by (simp only: of_int_less_iff)
  then have b: "binade x \<le> 52" by simp
  define j where "j = nat (52 - binade x)"
  have "ulp x * 2 ^ j = 2 powr of_int (binade x - 52) * 2 powr of_int (52 - binade x)"
    using b by (simp add: ulp_def j_def powr_realpow[symmetric])
  also have "\<dots> = 1" by (simp add: powr_add[symmetric])
  finally have u: "ulp x * 2 ^ j = 1" .
  then have "x / ulp x = x * 2 ^ j" using ulp_pos[of x] by (simp add: field_simps)
  also have "\<dots> = of_int (n * 2 ^ j)" by (simp add: x_def)
  finally have "rne (x / ulp x) = n * 2 ^ j" by (simp only: rne_int)
  then have "rd53 x = ulp x * of_int (n * 2 ^ j)" by (simp add: rd53_alt[OF x(1)])
  also have "\<dots> = x * (ulp x * 2 ^ j)" by (simp add: x_def)
  finally have "rd53 x = x" by (simp only: u mult_1_right)
  then show ?thesis by (simp only: x_def)
qed

lemma rd53_numeral:
  assumes "(numeral w :: int) < 2 ^ 53"
  shows "rd53 (numeral w) = numeral w"
  using rd53_int[OF _ assms] by simp

lemma rd53_half [simp]: "rd53 (1 / 2) = 1 / 2"
  using rd53_binade[of "- 1" "1 / 2"] by (simp add: rne_def powr_neg_numeral)

lemma rd53_halves [simp]: "rd53 (3 / 2) = 3 / 2" "rd53 (7 / 2) = 7 / 2" "rd53 (15 / 4) = 15 / 4"
  using rd53_binade[of 0 "3 / 2"] rd53_binade[of 1 "7 / 2"] rd53_binade[of 1 "15 / 4"]
  by (simp_all add: rne_def powr_neg_numeral)

lemma rd53_quarters [simp]: "rd53 (7 / 4) = 7 / 4"
  using rd53_binade[of 0 "7 / 4"] by (simp add: rne_def powr_neg_numeral)

lemma rd53_1e16 [simp]: "rd53 10000000000000000 = 10000000000000000"
  using rd53_representable[of 2 53 5000000000000000] by simp

lemma rd53_limit: "rd53 (20000000000000001 / 2) = 10000000000000000"
  using rd53_binade[of 53 "20000000000000001 / 2"] by (simp add: rne_def)

text \<open>
  Both roundings are monotone, leave a rounded value alone, leave 0 alone and keep the
  sign: the hypotheses that some of the theorems below make on the rounding.
\<close>

lemma rd53_props:
  "\<forall>x y. x \<le> y \<longrightarrow> rd53 x \<le> rd53 y" "\<forall>x. rd53 (rd53 x) = rd53 x" "rd53 0 = 0"
  "\<forall>x. x \<le> 0 \<longrightarrow> rd53 x \<le> 0"
  using rd53_mono rd53_idem rd53_nonpos rd53_0 by blast+

lemma exact_props:
  "\<forall>x y. x \<le> y \<longrightarrow> exact x \<le> exact y" "\<forall>x. exact (exact x) = exact x" "exact 0 = 0"
  "\<forall>x. x \<le> 0 \<longrightarrow> exact x \<le> 0"
  by (simp_all add: exact_def)

section \<open>Runs of the examples\<close>

lemma scenarioA_T: "totalPeriodsOf exact scenarioA = Fin (real 12)"
  by (simp add: totalPeriodsOf_def yearsOf_def scenarioA_def jmax_def exact_def)

lemma typicalPlan_T: "totalPeriodsOf exact typicalPlan = Fin (real 780)"
  by (simp add: totalPeriodsOf_def yearsOf_def typicalPlan_def jmax_def exact_def)

lemma scenarioA_returns: "\<exists>r. computeProjection exact scenarioA = Some r"
  by (rule computeProjection_returns) (simp_all add: scenarioA_def)

text \<open>
  Scenarios A and B of the specification: 12 periods, contributions of 1200 (1700 with
  the windfall), no interest, a final balance of 2200 (2700), and 13 points.
\<close>

lemma scenarioA_rate: "rPerPeriod exact scenarioA = Fin 0"
  by (simp add: rPerPeriod_def rAnnual_def scenarioA_def exact_def)

lemma scenarioA_keep: "keepPoint exact scenarioA i"
  by (simp add: keepPoint_def keepAll_def scenarioA_def)

lemma scenarioA_nofire: "\<not> windfallFires scenarioA i"
  by (simp add: windfallFires_def scenarioA_def)

lemma scenarioA_totals:
  "\<exists>r. computeProjection exact scenarioA = Some r \<and> totalPeriods r = Fin 12 \<and>
        finalContrib r = Fin 1200 \<and> finalInterest r = Fin 0 \<and> finalBalance r = Fin 2200 \<and>
        length (points r) = 13"
proof -
  have c: "contributionPerPayday scenarioA = Fin 100" "startingAmount scenarioA = Fin 1000"
    by (simp_all add: scenarioA_def)
  have T: "totalPeriodsOf exact scenarioA = Fin 12"
    using scenarioA_T by simp
  show ?thesis
    by (simp add: computeProjection_def T Let_def periods_unfold period_def scenarioA_rate
        scenarioA_keep scenarioA_nofire c initialVars_def exact_def)
qed

lemma scenarioB_totals:
  "\<exists>r. computeProjection exact scenarioB = Some r \<and> totalPeriods r = Fin 12 \<and>
        finalContrib r = Fin 1700 \<and> finalInterest r = Fin 0 \<and> finalBalance r = Fin 2700 \<and>
        length (points r) = 13"
proof -
  have c: "contributionPerPayday scenarioB = Fin 100" "startingAmount scenarioB = Fin 1000"
    "windfallAmount scenarioB = Fin 500"
    by (simp_all add: scenarioA_def scenarioB_def)
  have T: "totalPeriodsOf exact scenarioB = Fin 12"
    by (simp add: totalPeriodsOf_def yearsOf_def scenarioB_def scenarioA_def jmax_def exact_def)
  have r: "rPerPeriod exact scenarioB = Fin 0"
    by (simp add: rPerPeriod_def rAnnual_def scenarioA_def scenarioB_def exact_def)
  have k: "keepPoint exact scenarioB i" for i
    by (simp add: keepPoint_def keepAll_def scenarioA_def scenarioB_def)
  have w: "windfallFires scenarioB i = (i = 1)" for i
    by (simp add: windfallFires_def scenarioA_def scenarioB_def windfallPeriodFromChoice_def)
  show ?thesis
    by (simp add: computeProjection_def T Let_def periods_unfold period_def r k w c
        initialVars_def exact_def)
qed

text \<open>The run in binary64 on a starting amount of \<open>2^53\<close>, and the run with a negative amount.\<close>

lemma roundedRun_T: "totalPeriodsOf rd53 roundedRun = Fin 1"
  by (simp add: totalPeriodsOf_def yearsOf_def roundedRun_def jmax_def)

lemma roundedRun_r: "rPerPeriod rd53 roundedRun = Fin 0"
  by (simp add: rPerPeriod_def rAnnual_def roundedRun_def)

lemma roundedRun_keep: "keepAll roundedRun"
  by (simp add: keepAll_def roundedRun_def)

lemma roundedRun_run: "computeProjection rd53 roundedRun = Some roundedResult"
proof -
  have p: "period rd53 roundedRun 1 (initialVars rd53 roundedRun) =
     \<lparr>v_balance = Fin 9007199254740996, v_totalContrib = Fin 3, v_points = points roundedResult\<rparr>"
    by (simp add: period_def Let_def roundedRun_r keepPoint_def roundedRun_keep windfallFires_def initialVars_def)
       (simp add: roundedRun_def roundedResult_def)
  have "periods rd53 roundedRun 1 1 (initialVars rd53 roundedRun) =
     \<lparr>v_balance = Fin 9007199254740996, v_totalContrib = Fin 3, v_points = points roundedResult\<rparr>"
    using p by (simp add: periods_unfold[of _ _ _ "Suc 0"] periods_unfold[of _ _ _ "Suc (Suc 0)"])
  then show ?thesis
    by (simp add: computeProjection_def roundedRun_T Let_def yearsOf_def jmax_def)
       (simp add: roundedRun_def roundedResult_def)
qed

lemma withdrawal_run: "computeProjection exact withdrawal = Some withdrawalResult"
proof -
  have T: "totalPeriodsOf exact withdrawal = Fin 1"
    by (simp add: totalPeriodsOf_def yearsOf_def withdrawal_def jmax_def exact_def)
  have r: "rPerPeriod exact withdrawal = Fin 0"
    by (simp add: rPerPeriod_def rAnnual_def withdrawal_def exact_def)
  have k: "keepAll withdrawal"
    by (simp add: keepAll_def withdrawal_def)
  have p: "period exact withdrawal 1 (initialVars exact withdrawal) =
     \<lparr>v_balance = Fin 900, v_totalContrib = Fin (- 100), v_points = points withdrawalResult\<rparr>"
    by (simp add: period_def Let_def r keepPoint_def k windfallFires_def initialVars_def)
       (simp add: withdrawal_def withdrawalResult_def exact_def)
  have "periods exact withdrawal 1 1 (initialVars exact withdrawal) =
     \<lparr>v_balance = Fin 900, v_totalContrib = Fin (- 100), v_points = points withdrawalResult\<rparr>"
    using p by (simp add: periods_unfold[of _ _ _ "Suc 0"] periods_unfold[of _ _ _ "Suc (Suc 0)"])
  then show ?thesis
    by (simp add: computeProjection_def T Let_def yearsOf_def jmax_def)
       (simp add: withdrawal_def withdrawalResult_def exact_def)
qed

section \<open>The accounting identity\<close>

lemma jsub_exact_swap:
  "jsub exact (jsub exact b c) s = jsub exact (jsub exact b s) c"
  by (cases b; cases c; cases s) (simp_all add: exact_def)

text \<open>
  Claim C1, as the code has it. The reported \<open>finalInterest\<close> is the final balance minus
  the starting amount minus the final contributions, subtracted in this order and each
  difference rounded. Without rounding the order does not matter, and \<open>finalInterest\<close> is
  also the final balance minus the final contributions minus the starting amount, the
  same Number value (NaN as soon as one operand is).
\<close>

theorem accounting_identity:
  assumes "computeProjection fl inp = Some r"
  shows "finalInterest r = jsub fl (jsub fl (finalBalance r) (startingAmount inp)) (finalContrib r)
    \<and> (fl = exact \<longrightarrow>
         jsub fl (jsub fl (finalBalance r) (finalContrib r)) (startingAmount inp) = finalInterest r)"
proof -
  from assms have "finalInterest r =
      jsub fl (jsub fl (finalBalance r) (startingAmount inp)) (finalContrib r)"
    by (auto elim!: computeProjection_Some)
  then show ?thesis by (auto simp: jsub_exact_swap)
qed

text \<open>Scenario A: \<open>2200 - 1200 - 1000 = 0\<close>.\<close>

theorem accounting_identity_witness:
  "\<exists>r. computeProjection exact scenarioA = Some r \<and>
     finalBalance r = Fin 2200 \<and> finalContrib r = Fin 1200 \<and> finalInterest r = Fin 0 \<and>
     finalInterest r =
       jsub exact (jsub exact (finalBalance r) (startingAmount scenarioA)) (finalContrib r) \<and>
     jsub exact (jsub exact (finalBalance r) (finalContrib r)) (startingAmount scenarioA) =
       finalInterest r"
proof -
  obtain r where r: "computeProjection exact scenarioA = Some r"
    "finalBalance r = Fin 2200" "finalContrib r = Fin 1200" "finalInterest r = Fin 0"
    using scenarioA_totals by blast
  from accounting_identity[OF r(1)] r show ?thesis
    by blast
qed

text \<open>
  With binary64 rounding the two orders differ. From a starting amount of \<open>2^53\<close> and one
  payday of 3 the balance is \<open>2^53 + 4\<close>; the code reports
  \<open>(2^53 + 4 - 2^53) - 3 = 1\<close>, while balance minus contributions minus starting amount
  is \<open>(2^53 + 4 - 3) - 2^53 = 2^53 - 2^53 = 0\<close>.
\<close>

theorem accounting_identity_rounded:
  "computeProjection rd53 roundedRun = Some roundedResult \<and>
   jsub rd53 (jsub rd53 (finalBalance roundedResult) (finalContrib roundedResult))
     (startingAmount roundedRun) = Fin 0 \<and>
   finalInterest roundedResult = Fin 1 \<and>
   \<not> jseq (jsub rd53 (jsub rd53 (finalBalance roundedResult) (finalContrib roundedResult))
            (startingAmount roundedRun))
          (finalInterest roundedResult)"
  using roundedRun_run by (simp add: roundedRun_def roundedResult_def)

section \<open>Sampling\<close>

lemma jmod_nat:
  assumes "0 < k"
  shows "jmod (Fin (real i)) (Fin (real k)) = Fin (real (i mod k))"
proof -
  have "trunc (real i / real k) = int (i div k)"
    by (simp add: trunc_def floor_divide_of_nat_eq)
  moreover have "real i - real k * real (i div k) = real (i mod k)"
  proof -
    have "real i = real (k * (i div k) + i mod k)" by simp
    then have "real i = real k * real (i div k) + real (i mod k)"
      by (simp only: of_nat_add of_nat_mult)
    then show ?thesis by linarith
  qed
  ultimately show ?thesis using assms by simp
qed

lemma length_filter_multiples:
  assumes "0 < s"
  shows "length (filter (\<lambda>i. i mod s = 0) [0..<Suc n]) = n div s + 1"
proof (induction n)
  case 0
  then show ?case by simp
next
  case (Suc n)
  have "[0..<Suc (Suc n)] = [0..<Suc n] @ [Suc n]" by simp
  then show ?case using Suc by (simp add: div_Suc del: upt_Suc)
qed

lemma length_filter_last: "length (filter (\<lambda>i. i = n) [0..<Suc n]) = 1"
proof -
  have "filter (\<lambda>i. i = n) [0..<n] = []" by (simp add: filter_empty_conv)
  then show ?thesis by simp
qed

lemma length_filter_or:
  "length (filter (\<lambda>x. P x \<or> Q x) xs) \<le> length (filter P xs) + length (filter Q xs)"
  by (induction xs) auto

lemma points_index:
  assumes "computeProjection fl inp = Some r" "totalPeriods r = Fin (real n)"
  shows "map periodIndex (points r) = 0 # filter (keepPoint fl inp) [1..<Suc n]"
proof -
  from assms(1) obtain n' where n': "lastPeriod (totalPeriodsOf fl inp) = Some n'"
    and T: "totalPeriods r = totalPeriodsOf fl inp"
    and p: "points r = v_points (periods fl inp n' 1 (initialVars fl inp))"
    by (auto elim!: computeProjection_Some)
  from T assms(2) have "totalPeriodsOf fl inp = Fin (real n)" by simp
  with n' have "n' = n" by simp
  then show ?thesis
    by (simp add: p periods_index initialVars_def del: upt_Suc)
qed

lemma sampleStep_pos:
  assumes "maxPoints inp = Fin M" "0 < M" "totalPeriodsOf fl inp = Fin (real n)"
  shows "sampleStep fl inp = Fin (real (max 1 (nat \<lceil>fl (real n / M)\<rceil>)))"
proof -
  have "\<not> keepAll inp" using assms by (simp add: keepAll_def)
  moreover have "jmax (Fin 1) (Fin (of_int c)) = Fin (real (max 1 (nat c)))" for c :: int
    by (cases "1 \<le> c") (auto simp: jmax_def max_def)
  ultimately show ?thesis using assms by (simp add: sampleStep_def)
qed

text \<open>
  Claim C2. For a run whose \<open>totalPeriods\<close> is the finite number \<open>n\<close>: when
  \<open>maxPoints\<close> is 0, \<open>points\<close> has \<open>n + 1\<close> entries; when \<open>maxPoints\<close> is \<open>M > 0\<close>, the
  stride is \<open>max(1, ceil(n / M))\<close>, the indices of \<open>points\<close> are exactly those \<open>i\<close> of
  \<open>0..n\<close> with \<open>i = 0\<close>, \<open>i = n\<close> or \<open>i mod stride = 0\<close>, in order, so \<open>0\<close> and \<open>n\<close> are
  among them, and there are at most \<open>floor(n / stride) + 2\<close> points.
\<close>

theorem sampling_bounds:
  assumes run: "computeProjection fl inp = Some r"
    and T: "totalPeriods r = Fin (real n)"
    and M: "maxPoints inp = Fin M"
  shows "(M = 0 \<longrightarrow> length (points r) = n + 1) \<and>
    (0 < M \<longrightarrow>
       (let stride = max 1 (nat \<lceil>fl (real n / M)\<rceil>) in
          sampleStep fl inp = Fin (real stride) \<and>
          map periodIndex (points r) =
            filter (\<lambda>i. i = 0 \<or> i = n \<or> i mod stride = 0) [0..<Suc n] \<and>
          0 \<in> set (map periodIndex (points r)) \<and>
          n \<in> set (map periodIndex (points r)) \<and>
          length (points r) \<le> n div stride + 2))"
proof (intro conjI impI)
  assume "M = 0"
  then have "keepAll inp" using M by (simp add: keepAll_def)
  then have "filter (keepPoint fl inp) [1..<Suc n] = [1..<Suc n]"
    by (simp add: keepPoint_def)
  then have "map periodIndex (points r) = 0 # [1..<Suc n]"
    using points_index[OF run T] by simp
  then have "length (map periodIndex (points r)) = n + 1" by simp
  then show "length (points r) = n + 1" by simp
next
  assume pos: "0 < M"
  define stride where "stride = max 1 (nat \<lceil>fl (real n / M)\<rceil>)"
  have s0: "0 < stride" by (simp add: stride_def)
  from run have Tof: "totalPeriodsOf fl inp = Fin (real n)"
    using T by (auto elim!: computeProjection_Some)
  have step: "sampleStep fl inp = Fin (real stride)"
    unfolding stride_def by (rule sampleStep_pos[OF M pos Tof])
  have nk: "\<not> keepAll inp" using M pos by (simp add: keepAll_def)
  have keep: "keepPoint fl inp i = (i mod stride = 0 \<or> i = n)" for i
    unfolding keepPoint_def step Tof jmod_nat[OF s0] using nk by auto
  have upt: "[0..<Suc n] = 0 # [1..<Suc n]" by (simp add: upt_conv_Cons)
  have "filter (\<lambda>i. i = 0 \<or> i = n \<or> i mod stride = 0) [1..<Suc n] =
        filter (keepPoint fl inp) [1..<Suc n]"
    by (rule filter_cong) (auto simp: keep)
  then have idx: "map periodIndex (points r) =
      filter (\<lambda>i. i = 0 \<or> i = n \<or> i mod stride = 0) [0..<Suc n]"
    using points_index[OF run T] by (simp only: upt) simp
  have "length (map periodIndex (points r)) =
      length (filter (\<lambda>i. (i = n) \<or> (i mod stride = 0)) [0..<Suc n])"
    unfolding idx by (rule arg_cong[where f=length], rule filter_cong) auto
  also have "\<dots> \<le> length (filter (\<lambda>i. i = n) [0..<Suc n]) + length (filter (\<lambda>i. i mod stride = 0) [0..<Suc n])"
    by (rule length_filter_or)
  also have "\<dots> = n div stride + 2"
    by (simp only: length_filter_last length_filter_multiples[OF s0])
  finally have len: "length (points r) \<le> n div stride + 2" by simp
  have "0 \<in> set (map periodIndex (points r))" "n \<in> set (map periodIndex (points r))"
    unfolding idx by auto
  with step idx len
  show "let stride = max 1 (nat \<lceil>fl (real n / M)\<rceil>) in
          sampleStep fl inp = Fin (real stride) \<and>
          map periodIndex (points r) =
            filter (\<lambda>i. i = 0 \<or> i = n \<or> i mod stride = 0) [0..<Suc n] \<and>
          0 \<in> set (map periodIndex (points r)) \<and>
          n \<in> set (map periodIndex (points r)) \<and>
          length (points r) \<le> n div stride + 2"
    unfolding stride_def[symmetric] Let_def by simp
qed

text \<open>
  Scenario A keeps all 13 points of its 12 periods; the form's defaults give 780 periods
  and a stride of 4 (Scenario C).
\<close>

theorem sampling_bounds_witness:
  "(\<exists>r. computeProjection exact scenarioA = Some r \<and> totalPeriods r = Fin 12 \<and>
        maxPoints scenarioA = Fin 0 \<and> length (points r) = 13) \<and>
   (\<exists>r. computeProjection exact typicalPlan = Some r \<and> totalPeriods r = Fin 780 \<and>
        maxPoints typicalPlan = Fin 240 \<and> sampleStep exact typicalPlan = Fin 4 \<and>
        map periodIndex (points r) = filter (\<lambda>i. i = 0 \<or> i = 780 \<or> i mod 4 = 0) [0..<781] \<and>
        length (points r) \<le> 197 \<and> length (points r) = 196)"
proof
  obtain r where r: "computeProjection exact scenarioA = Some r"
    using scenarioA_returns by blast
  have T: "totalPeriods r = Fin (real 12)"
    using run_totalPeriods[OF r] scenarioA_T by simp
  have M: "maxPoints scenarioA = Fin 0" by (simp add: scenarioA_def)
  from sampling_bounds[OF r T M] r T M
  show "\<exists>r. computeProjection exact scenarioA = Some r \<and> totalPeriods r = Fin 12 \<and>
        maxPoints scenarioA = Fin 0 \<and> length (points r) = 13"
    by auto
next
  obtain r where r: "computeProjection exact typicalPlan = Some r"
    using computeProjection_returns[of typicalPlan exact] by (auto simp: typicalPlan_def)
  have T: "totalPeriods r = Fin (real 780)"
    using run_totalPeriods[OF r] typicalPlan_T by simp
  have M: "maxPoints typicalPlan = Fin 240" by (simp add: typicalPlan_def)
  have s: "max 1 (nat \<lceil>exact (real 780 / 240)\<rceil>) = 4"
    by (simp add: exact_def)
  from sampling_bounds[OF r T M] have b:
    "sampleStep exact typicalPlan = Fin (real (4::nat))"
    "map periodIndex (points r) = filter (\<lambda>i. i = 0 \<or> i = 780 \<or> i mod 4 = 0) [0..<Suc 780]"
    "length (points r) \<le> 780 div 4 + 2"
    unfolding Let_def s by simp_all
  have "filter (\<lambda>i. i = 0 \<or> i = 780 \<or> i mod 4 = 0) [0..<Suc 780] =
        filter (\<lambda>i. i mod 4 = 0) [0..<Suc 780]"
    by (rule filter_cong) auto
  then have "length (map periodIndex (points r)) = 780 div 4 + 1"
    unfolding b(2) by (simp only: length_filter_multiples)
  then have "length (points r) = 196" by simp
  with r T M b
  show "\<exists>r. computeProjection exact typicalPlan = Some r \<and> totalPeriods r = Fin 780 \<and>
        maxPoints typicalPlan = Fin 240 \<and> sampleStep exact typicalPlan = Fin 4 \<and>
        map periodIndex (points r) = filter (\<lambda>i. i = 0 \<or> i = 780 \<or> i mod 4 = 0) [0..<781] \<and>
        length (points r) \<le> 197 \<and> length (points r) = 196"
    by (intro exI[of _ r]) (simp del: upt_Suc)
qed

section \<open>The rate per period\<close>

lemma no_periods:
  assumes neg: "\<forall>x. x \<le> 0 \<longrightarrow> fl x \<le> 0" and p: "jle (payPeriodsPerYear inp) (Fin 0)"
  shows "lastPeriod (totalPeriodsOf fl inp) = Some 0"
proof -
  have y: "yearsOf fl inp = NaN \<or> yearsOf fl inp = PInf \<or> (\<exists>y\<ge>0. yearsOf fl inp = Fin y)"
    by (cases "jsub fl (retirementAge inp) (currentAge inp)") (auto simp: yearsOf_def jmax_def)
  have r: "\<lfloor>x + 1 / 2\<rfloor> \<le> 0" if "x \<le> 0" for x :: real
    using that by (simp add: floor_le_iff)
  have m: "lastPeriod (jmax (Fin 0) (jround (Fin x))) = Some 0" if "x \<le> 0" for x :: real
    using r[OF that] by (auto simp: jmax_def)
  show ?thesis
  proof (cases "payPeriodsPerYear inp")
    case (Fin q)
    with p have q: "q \<le> 0" by simp
    from y show ?thesis
    proof (elim disjE exE conjE)
      fix y :: real assume "0 \<le> y" and yy: "yearsOf fl inp = Fin y"
      then have "y * q \<le> 0" using q by (simp add: mult_nonneg_nonpos)
      then have "fl (y * q) \<le> 0" using neg by simp
      from m[OF this] show ?thesis by (simp add: totalPeriodsOf_def yy Fin)
    qed (use Fin q in \<open>auto simp: totalPeriodsOf_def jmax_def\<close>)
  next
    case NInf
    from y show ?thesis
      by (elim disjE exE conjE) (auto simp: totalPeriodsOf_def jmax_def NInf)
  qed (use p in auto)
qed

text \<open>
  Claim C3, as the code has it. When \<open>payPeriodsPerYear > 0\<close> the rate per period is
  \<open>Math.pow(1 + annualRatePct / 100, 1 / payPeriodsPerYear) - 1\<close>, which without
  rounding, for a finite rate above \<open>-100\<close>, is the real number
  \<open>(1 + annualRatePct / 100)^(1 / payPeriodsPerYear) - 1\<close>; each period multiplies the
  balance, after the deposits, by one plus this rate. When \<open>payPeriodsPerYear \<le> 0\<close> the
  rate is 0 and the simulator returns a result without growth, but it runs no period:
  \<open>totalPeriods\<close> is then 0 or NaN, nothing is added, the final balance is the starting
  amount and \<open>points\<close> holds the initial point alone. (The hypothesis on the rounding: a
  result that is not positive is not rounded to a positive one.)
\<close>

theorem rate_conversion:
  assumes "\<forall>x. x \<le> 0 \<longrightarrow> fl x \<le> 0"
  shows "(jlt (Fin 0) (payPeriodsPerYear inp) \<longrightarrow>
            rPerPeriod fl inp =
              jsub fl (jpow fl (jadd fl (Fin 1) (jdiv fl (annualRatePct inp) (Fin 100)))
                               (jdiv fl (Fin 1) (payPeriodsPerYear inp))) (Fin 1)) \<and>
         (\<forall>a p. annualRatePct inp = Fin a \<and> payPeriodsPerYear inp = Fin p \<and> 0 < p \<and> - 100 < a
              \<longrightarrow> rPerPeriod exact inp = Fin ((1 + a / 100) powr (1 / p) - 1)) \<and>
         v_balance (period fl inp i s) =
           jmul fl (jadd fl (if windfallFires inp i then jadd fl (v_balance s) (windfallAmount inp)
                             else v_balance s) (contributionPerPayday inp))
                   (jadd fl (Fin 1) (rPerPeriod fl inp)) \<and>
         (jle (payPeriodsPerYear inp) (Fin 0) \<longrightarrow>
            rPerPeriod fl inp = Fin 0 \<and>
            (\<exists>r. computeProjection fl inp = Some r \<and> finalBalance r = startingAmount inp \<and>
                 finalContrib r = Fin 0 \<and> length (points r) = 1))"
proof (intro conjI impI allI)
  assume "jlt (Fin 0) (payPeriodsPerYear inp)"
  then show "rPerPeriod fl inp =
      jsub fl (jpow fl (jadd fl (Fin 1) (jdiv fl (annualRatePct inp) (Fin 100)))
                       (jdiv fl (Fin 1) (payPeriodsPerYear inp))) (Fin 1)"
    by (simp add: rPerPeriod_def rAnnual_def)
next
  fix a p
  assume "annualRatePct inp = Fin a \<and> payPeriodsPerYear inp = Fin p \<and> 0 < p \<and> - 100 < a"
  then show "rPerPeriod exact inp = Fin ((1 + a / 100) powr (1 / p) - 1)"
    by (simp add: rPerPeriod_def rAnnual_def exact_def)
next
  show "v_balance (period fl inp i s) =
           jmul fl (jadd fl (if windfallFires inp i then jadd fl (v_balance s) (windfallAmount inp)
                             else v_balance s) (contributionPerPayday inp))
                   (jadd fl (Fin 1) (rPerPeriod fl inp))"
    by (simp add: period_def Let_def)
next
  assume p: "jle (payPeriodsPerYear inp) (Fin 0)"
  then show "rPerPeriod fl inp = Fin 0"
    by (cases "payPeriodsPerYear inp") (auto simp: rPerPeriod_def)
next
  assume p: "jle (payPeriodsPerYear inp) (Fin 0)"
  have "lastPeriod (totalPeriodsOf fl inp) = Some 0"
    by (rule no_periods[OF assms p])
  then show "\<exists>r. computeProjection fl inp = Some r \<and> finalBalance r = startingAmount inp \<and>
                 finalContrib r = Fin 0 \<and> length (points r) = 1"
    by (simp add: computeProjection_def Let_def periods_unfold[of _ _ 0 "Suc 0"] initialVars_def)
qed

theorem rate_conversion_witness:
  "jlt (Fin 0) (payPeriodsPerYear typicalPlan) \<and>
   rPerPeriod exact typicalPlan = Fin ((1 + 7 / 100) powr (1 / 26) - 1) \<and>
   jle (payPeriodsPerYear noPaydays) (Fin 0) \<and>
   rPerPeriod exact noPaydays = Fin 0 \<and>
   (\<exists>r. computeProjection exact noPaydays = Some r \<and> finalBalance r = Fin 1000 \<and>
        finalContrib r = Fin 0 \<and> length (points r) = 1)"
proof -
  have p: "jlt (Fin 0) (payPeriodsPerYear typicalPlan)"
    "annualRatePct typicalPlan = Fin 7 \<and> payPeriodsPerYear typicalPlan = Fin 26 \<and>
      (0::real) < 26 \<and> - 100 < (7::real)"
    by (simp_all add: typicalPlan_def)
  have q: "jle (payPeriodsPerYear noPaydays) (Fin 0)"
    "startingAmount noPaydays = Fin 1000"
    by (simp_all add: noPaydays_def scenarioA_def)
  from rate_conversion[OF exact_props(4), of typicalPlan] p
  have "rPerPeriod exact typicalPlan = Fin ((1 + 7 / 100) powr (1 / 26) - 1)"
    by blast
  moreover from rate_conversion[OF exact_props(4), of noPaydays] q
  have "rPerPeriod exact noPaydays = Fin 0 \<and>
    (\<exists>r. computeProjection exact noPaydays = Some r \<and> finalBalance r = Fin 1000 \<and>
        finalContrib r = Fin 0 \<and> length (points r) = 1)"
    by simp
  ultimately show ?thesis using p(1) q(1) by blast
qed

text \<open>
  Scenario A with \<open>payPeriodsPerYear = 0\<close>: a year ahead and 100 per payday, yet no period
  is run and nothing is added.
\<close>

theorem no_paydays_no_additions:
  "jle (payPeriodsPerYear noPaydays) (Fin 0) \<and>
   contributionPerPayday noPaydays = Fin 100 \<and>
   computeProjection exact noPaydays = Some noPaydaysResult \<and>
   finalContrib noPaydaysResult = Fin 0 \<and> points noPaydaysResult =
     [\<lparr>periodIndex = 0, yearIndex = Fin 0, balance = Fin 1000, totalContrib = Fin 0,
       interestEarned = Fin 0, interestThisPeriod = None\<rparr>]"
proof -
  have T: "totalPeriodsOf exact noPaydays = Fin 0"
    by (simp add: totalPeriodsOf_def yearsOf_def noPaydays_def scenarioA_def jmax_def exact_def)
  have "computeProjection exact noPaydays = Some noPaydaysResult"
    by (simp add: computeProjection_def T Let_def periods_unfold[of _ _ 0 "Suc 0"]
        initialVars_def yearsOf_def jmax_def)
       (simp add: noPaydays_def scenarioA_def noPaydaysResult_def exact_def)
  then show ?thesis
    by (simp add: noPaydays_def scenarioA_def noPaydaysResult_def)
qed

section \<open>Contributions\<close>

lemma jle_trans_Fin: "jle a (Fin t) \<Longrightarrow> t \<le> u \<Longrightarrow> jle a (Fin u)"
  by (cases a) auto

lemma contribInv_period:
  assumes mono: "\<And>x y. x \<le> y \<Longrightarrow> fl x \<le> fl y" and idem: "\<And>x. fl (fl x) = fl x"
    and c: "contributionPerPayday inp = Fin c" "0 \<le> c"
    and inv: "contribInv fl s"
  shows "contribInv fl (period fl inp i s)"
proof -
  from inv obtain t where t: "v_totalContrib s = Fin t" "fl t = t"
    "sorted_wrt contribOrder (v_points s)"
    "list_all (\<lambda>p. jle (totalContrib p) (Fin t)) (v_points s)"
    by (auto simp: contribInv_def split: number.splits)
  define c0 where "c0 = (if windfallFires inp i then jadd fl (v_totalContrib s) (windfallAmount inp)
                else v_totalContrib s)"
  have "\<exists>u. c0 = Fin u \<and> fl u = u \<and> t \<le> u"
  proof (cases "windfallFires inp i")
    case True
    then obtain w where w: "windfallAmount inp = Fin w" "0 < w"
      by (cases "windfallAmount inp") (auto simp: windfallFires_def)
    have "fl t \<le> fl (t + w)" using w by (intro mono) simp
    then show ?thesis using True w t by (simp add: c0_def idem)
  next
    case False
    then show ?thesis using t by (simp add: c0_def)
  qed
  then obtain u where u: "c0 = Fin u" "fl u = u" "t \<le> u" by blast
  define v where "v = fl (u + c)"
  have "fl u \<le> fl (u + c)" using c by (intro mono) simp
  then have v: "jadd fl c0 (contributionPerPayday inp) = Fin v" "fl v = v" "t \<le> v"
    using u c by (simp_all add: v_def idem)
  have all: "list_all (\<lambda>p. jle (totalContrib p) (Fin v)) (v_points s)"
    using t(4) v(3) by (auto simp: list_all_iff intro: jle_trans_Fin)
  have tc: "v_totalContrib (period fl inp i s) = Fin v"
    using v(1) by (simp add: period_def Let_def c0_def)
  have pts: "v_points (period fl inp i s) = v_points s \<or>
    (\<exists>p. v_points (period fl inp i s) = v_points s @ [p] \<and> totalContrib p = Fin v)"
    using v(1) by (simp add: period_def Let_def c0_def)
  then show ?thesis
  proof
    assume "v_points (period fl inp i s) = v_points s"
    then show ?thesis using tc v(2) t(3) all by (simp add: contribInv_def)
  next
    assume "\<exists>p. v_points (period fl inp i s) = v_points s @ [p] \<and> totalContrib p = Fin v"
    then obtain p where p: "v_points (period fl inp i s) = v_points s @ [p]" "totalContrib p = Fin v"
      by blast
    have "sorted_wrt contribOrder (v_points s @ [p])"
      using t(3) all p(2) by (auto simp: sorted_wrt_append contribOrder_def list_all_iff)
    moreover have "list_all (\<lambda>p. jle (totalContrib p) (Fin v)) (v_points s @ [p])"
      using all p(2) by simp
    ultimately show ?thesis using tc v(2) p(1) by (simp add: contribInv_def)
  qed
qed

lemma contribInv_periods:
  assumes mono: "\<And>x y. x \<le> y \<Longrightarrow> fl x \<le> fl y" and idem: "\<And>x. fl (fl x) = fl x"
    and c: "contributionPerPayday inp = Fin c" "0 \<le> c"
  shows "contribInv fl s \<Longrightarrow> contribInv fl (periods fl inp n i s)"
proof (induction "Suc n - i" arbitrary: i s)
  case 0
  then have "\<not> i \<le> n" by simp
  with 0 show ?case by (simp add: periods_unfold[of _ _ n i])
next
  case (Suc k)
  then have le: "i \<le> n" by simp
  have "contribInv fl (period fl inp i s)"
    by (rule contribInv_period[OF mono idem c Suc(3)])
  then have "contribInv fl (periods fl inp n (Suc i) (period fl inp i s))"
    using Suc(2) by (intro Suc(1)) auto
  then show ?case using le by (simp add: periods_unfold[of _ _ n i])
qed

text \<open>
  Claim C8, as the code has it. When the amount per payday is finite and not negative,
  \<open>totalContrib\<close> never decreases along \<open>points\<close>. (The hypotheses on the rounding: it
  is monotone, it leaves a rounded value alone, and it leaves 0 alone.)
\<close>

theorem contributions_monotone:
  assumes "\<forall>x y. x \<le> y \<longrightarrow> fl x \<le> fl y" and "\<forall>x. fl (fl x) = fl x" and "fl 0 = 0"
    and c: "contributionPerPayday inp = Fin c" "0 \<le> c"
    and run: "computeProjection fl inp = Some r"
  shows "sorted_wrt contribOrder (points r)"
proof -
  from run obtain n where p: "points r = v_points (periods fl inp n 1 (initialVars fl inp))"
    by (auto elim!: computeProjection_Some)
  have "contribInv fl (initialVars fl inp)"
    using assms(3) by (simp add: contribInv_def initialVars_def)
  then have "contribInv fl (periods fl inp n 1 (initialVars fl inp))"
    using assms(1,2) by (intro contribInv_periods[OF _ _ c]) auto
  then show ?thesis
    by (auto simp: contribInv_def p split: number.splits)
qed

text \<open>
  Scenario A in exact arithmetic, and the run on a starting amount of \<open>2^53\<close> in
  binary64.
\<close>

theorem contributions_monotone_witness:
  "contributionPerPayday scenarioA = Fin 100 \<and> (0::real) \<le> 100 \<and>
   (\<exists>r. computeProjection exact scenarioA = Some r \<and> sorted_wrt contribOrder (points r)) \<and>
   contributionPerPayday roundedRun = Fin 3 \<and> (0::real) \<le> 3 \<and>
   computeProjection rd53 roundedRun = Some roundedResult \<and>
   sorted_wrt contribOrder (points roundedResult)"
proof -
  obtain r where r: "computeProjection exact scenarioA = Some r"
    using scenarioA_returns by blast
  have c: "contributionPerPayday scenarioA = Fin 100" "(0::real) \<le> 100"
    by (simp_all add: scenarioA_def)
  have d: "contributionPerPayday roundedRun = Fin 3" "(0::real) \<le> 3"
    by (simp_all add: roundedRun_def)
  from contributions_monotone[OF exact_props(1-3) c r]
    contributions_monotone[OF rd53_props(1-3) d roundedRun_run] c d r roundedRun_run
  show ?thesis by blast
qed

text \<open>
  With a negative amount per payday \<open>totalContrib\<close> decreases: from 0 at period 0 to
  \<open>-100\<close> at period 1.
\<close>

theorem contributions_decrease:
  "computeProjection exact withdrawal = Some withdrawalResult \<and>
   \<not> sorted_wrt contribOrder (points withdrawalResult)"
  using withdrawal_run by (simp add: withdrawalResult_def contribOrder_def)

section \<open>The initial point\<close>



section \<open>A windfall that never fires\<close>

lemma periods_cong:
  assumes "\<And>j s. i \<le> j \<Longrightarrow> j \<le> n \<Longrightarrow> period fl inp j s = period fl inp' j s"
  shows "periods fl inp n i s = periods fl inp' n i s"
  using assms
proof (induction "Suc n - i" arbitrary: i s)
  case 0
  then have "\<not> i \<le> n" by simp
  then show ?case by (simp add: periods_unfold[of _ _ n i])
next
  case (Suc k)
  then have le: "i \<le> n" by simp
  have "periods fl inp n (Suc i) (period fl inp i s) = periods fl inp' n (Suc i) (period fl inp i s)"
    using Suc(2) by (intro Suc(1)) (auto intro: Suc(3))
  moreover have "period fl inp i s = period fl inp' i s" using le by (intro Suc(3)) auto
  ultimately show ?case using le by (simp add: periods_unfold[of _ _ n i])
qed

lemma windfallAmount_update [simp]:
  "yearsOf fl (inp\<lparr>windfallAmount := a\<rparr>) = yearsOf fl inp"
  "totalPeriodsOf fl (inp\<lparr>windfallAmount := a\<rparr>) = totalPeriodsOf fl inp"
  "rPerPeriod fl (inp\<lparr>windfallAmount := a\<rparr>) = rPerPeriod fl inp"
  "keepPoint fl (inp\<lparr>windfallAmount := a\<rparr>) i = keepPoint fl inp i"
  "initialVars fl (inp\<lparr>windfallAmount := a\<rparr>) = initialVars fl inp"
  by (simp_all add: yearsOf_def totalPeriodsOf_def rPerPeriod_def rAnnual_def keepPoint_def
      keepAll_def sampleStep_def initialVars_def)

lemma no_windfall_period:
  assumes "\<not> windfallFires inp i"
  shows "period fl inp i s = period fl (inp\<lparr>windfallAmount := Fin 0\<rparr>) i s"
proof -
  have "\<not> windfallFires (inp\<lparr>windfallAmount := Fin 0\<rparr>) i"
    by (simp add: windfallFires_def)
  with assms show ?thesis
    by (simp add: period_def Let_def)
qed

lemma lastPeriod_le:
  assumes "lastPeriod T = Some n" "1 \<le> i" "i \<le> n"
  shows "\<exists>t. T = Fin t \<and> real i \<le> t"
proof (cases T)
  case (Fin t)
  with assms have "int i \<le> \<lfloor>t\<rfloor>" by auto
  then have "real i \<le> t" by (simp add: le_floor_iff)
  with Fin show ?thesis by simp
qed (use assms in auto)

lemma never_fires:
  assumes "windfallOutOfRange fl inp \<or> jle (windfallAmount inp) (Fin 0) \<or>
           \<not> isFinite (windfallAmount inp)"
    and "lastPeriod (totalPeriodsOf fl inp) = Some n" "1 \<le> i" "i \<le> n"
  shows "\<not> windfallFires inp i"
proof -
  obtain t where t: "totalPeriodsOf fl inp = Fin t" "real i \<le> t"
    using lastPeriod_le[OF assms(2-4)] by blast
  show ?thesis
  proof (cases "windfallAmount inp")
    case (Fin a)
    show ?thesis
    proof (cases "a \<le> 0")
      case True
      with Fin show ?thesis by (simp add: windfallFires_def)
    next
      case False
      with Fin assms(1) have oor: "windfallOutOfRange fl inp" by simp
      show ?thesis
      proof (cases "windfallAtPeriod inp")
        case None
        then show ?thesis by (simp add: windfallFires_def)
      next
        case (Some w)
        with oor t assms(3) show ?thesis
          by (cases w) (auto simp: windfallFires_def windfallOutOfRange_def)
      qed
    qed
  qed (simp_all add: windfallFires_def)
qed

text \<open>
  Claim C10. If the resolved \<open>windfallAtPeriod\<close> is \<open>null\<close>, not finite or outside
  \<open>[1, totalPeriods]\<close>, or \<open>windfallAmount\<close> is at most 0 or not finite, then
  \<open>computeProjection\<close> returns what it returns for the same input with \<open>windfallAmount\<close>
  0 (and does not return where that does not).
\<close>

theorem windfall_noop:
  assumes "windfallOutOfRange fl inp \<or> jle (windfallAmount inp) (Fin 0) \<or>
           \<not> isFinite (windfallAmount inp)"
  shows "computeProjection fl inp = computeProjection fl (inp\<lparr>windfallAmount := Fin 0\<rparr>)"
proof (cases "lastPeriod (totalPeriodsOf fl inp)")
  case None
  then show ?thesis by (simp add: computeProjection_def)
next
  case (Some n)
  have "periods fl inp n 1 s = periods fl (inp\<lparr>windfallAmount := Fin 0\<rparr>) n 1 s" for s
    by (rule periods_cong) (use never_fires[OF assms Some] in \<open>auto intro: no_windfall_period\<close>)
  with Some show ?thesis
    by (simp add: computeProjection_def Let_def)
qed

theorem windfall_noop_witness:
  "windfallOutOfRange exact lateWindfall \<and>
   computeProjection exact lateWindfall =
     computeProjection exact (lateWindfall\<lparr>windfallAmount := Fin 0\<rparr>) \<and>
   jle (windfallAmount negativeWindfall) (Fin 0) \<and>
   computeProjection exact negativeWindfall =
     computeProjection exact (negativeWindfall\<lparr>windfallAmount := Fin 0\<rparr>)"
proof -
  have "totalPeriodsOf exact lateWindfall = Fin 12"
    by (simp add: totalPeriodsOf_def yearsOf_def lateWindfall_def scenarioA_def jmax_def exact_def)
  then have o: "windfallOutOfRange exact lateWindfall"
    by (simp add: windfallOutOfRange_def lateWindfall_def)
  have n: "jle (windfallAmount negativeWindfall) (Fin 0)"
    by (simp add: negativeWindfall_def)
  from windfall_noop[of exact lateWindfall] o windfall_noop[of exact negativeWindfall] n
  show ?thesis by blast
qed

section \<open>Properties of the windfall scheduler\<close>

lemma clampInt_range:
  assumes "1 \<le> t"
  shows "\<exists>w. clampInt x (Fin 1) (Fin t) = Fin w \<and> 1 \<le> w \<and> w \<le> t"
proof (cases "jround x")
  case (Fin v)
  then show ?thesis using assms by (cases "1 \<le> v"; cases "t \<le> v") (auto simp: clampInt_def jmin_def jmax_def Let_def)
qed (use assms in \<open>auto simp: clampInt_def\<close>)

lemma same_without_windfall:
  assumes "lastPeriod (totalPeriodsOf fl inp) = Some n"
    and "\<And>i. 1 \<le> i \<Longrightarrow> i \<le> n \<Longrightarrow> \<not> windfallFires inp i"
  shows "computeProjection fl inp = computeProjection fl (inp\<lparr>windfallAmount := Fin 0\<rparr>)"
proof -
  have "periods fl inp n 1 s = periods fl (inp\<lparr>windfallAmount := Fin 0\<rparr>) n 1 s" for s
    by (rule periods_cong) (use assms(2) in \<open>auto intro: no_windfall_period\<close>)
  with assms(1) show ?thesis
    by (simp add: computeProjection_def Let_def)
qed

text \<open>
  Claim C5, as the code has it. \<open>windfallPeriodFromChoice\<close> returns \<open>null\<close> exactly when
  the policy is none of \<open>now\<close>, \<open>year\<close>, \<open>age\<close>, \<open>payday\<close>; it does not see the amount.
  When \<open>totalPeriods\<close> is finite and at least 1, every result that is not \<open>null\<close> lies in
  \<open>[1, totalPeriods]\<close>. When the amount is at most 0, the policy is \<open>none\<close> or
  \<open>totalPeriods\<close> is 0, \<open>computeProjection\<close> run on the scheduler's result returns what it
  returns without a windfall.
\<close>

theorem scheduler_result:
  "(windfallPeriodFromChoice fl when atYear atAge atPayday age perYear nPeriods = None) =
     (when \<notin> {''now'', ''year'', ''age'', ''payday''}) \<and>
   (\<forall>t w. nPeriods = Fin t \<and> 1 \<le> t \<and>
      windfallPeriodFromChoice fl when atYear atAge atPayday age perYear nPeriods = Some w
      \<longrightarrow> jle (Fin 1) w \<and> jle w nPeriods) \<and>
   (windfallAtPeriod inp = windfallPeriodFromChoice fl when atYear atAge atPayday age
        (payPeriodsPerYear inp) (totalPeriodsOf fl inp) \<and>
    (jle (windfallAmount inp) (Fin 0) \<or> when = ''none'' \<or> totalPeriodsOf fl inp = Fin 0)
      \<longrightarrow> computeProjection fl inp = computeProjection fl (inp\<lparr>windfallAmount := Fin 0\<rparr>))"
proof (intro conjI allI impI)
  show "(windfallPeriodFromChoice fl when atYear atAge atPayday age perYear nPeriods = None) =
     (when \<notin> {''now'', ''year'', ''age'', ''payday''})"
    by (simp add: windfallPeriodFromChoice_def Let_def)
next
  fix t w
  assume a: "nPeriods = Fin t \<and> 1 \<le> t \<and>
      windfallPeriodFromChoice fl when atYear atAge atPayday age perYear nPeriods = Some w"
  then have t: "nPeriods = Fin t" "1 \<le> t" by simp_all
  have "\<exists>v. w = Fin v \<and> 1 \<le> v \<and> v \<le> t"
    using a clampInt_range[OF t(2)]
    by (auto simp: windfallPeriodFromChoice_def Let_def split: if_splits)
  then show "jle (Fin 1) w" "jle w nPeriods" using t by auto
next
  assume a: "windfallAtPeriod inp = windfallPeriodFromChoice fl when atYear atAge atPayday age
        (payPeriodsPerYear inp) (totalPeriodsOf fl inp) \<and>
    (jle (windfallAmount inp) (Fin 0) \<or> when = ''none'' \<or> totalPeriodsOf fl inp = Fin 0)"
  show "computeProjection fl inp = computeProjection fl (inp\<lparr>windfallAmount := Fin 0\<rparr>)"
  proof (cases "lastPeriod (totalPeriodsOf fl inp)")
    case None
    then show ?thesis by (simp add: computeProjection_def)
  next
    case (Some n)
    show ?thesis
    proof (rule same_without_windfall[OF Some])
      fix i assume i: "1 \<le> i" "i \<le> n"
      from a consider "jle (windfallAmount inp) (Fin 0)" | "when = ''none''"
        | "totalPeriodsOf fl inp = Fin 0" by blast
      then show "\<not> windfallFires inp i"
      proof cases
        case 1
        then show ?thesis by (cases "windfallAmount inp") (auto simp: windfallFires_def)
      next
        case 2
        with a have "windfallAtPeriod inp = None" by (simp add: windfallPeriodFromChoice_def)
        then show ?thesis by (simp add: windfallFires_def)
      next
        case 3
        with Some i show ?thesis by simp
      qed
    qed
  qed
qed

theorem scheduler_result_witness:
  "windfallPeriodFromChoice exact ''year'' (Fin 2) (Fin 45) (Fin 1) (Fin 35) (Fin 26) (Fin 780)
     = Some (Fin 52) \<and>
   jle (Fin 1) (Fin 52) \<and> jle (Fin 52) (Fin 780) \<and>
   windfallAtPeriod unfundedWindfall =
     windfallPeriodFromChoice exact ''year'' (Fin 2) (Fin 45) (Fin 1) (Fin 35)
       (payPeriodsPerYear unfundedWindfall) (totalPeriodsOf exact unfundedWindfall) \<and>
   jle (windfallAmount unfundedWindfall) (Fin 0) \<and>
   computeProjection exact unfundedWindfall =
     computeProjection exact (unfundedWindfall\<lparr>windfallAmount := Fin 0\<rparr>)"
proof -
  have y: "windfallPeriodFromChoice exact ''year'' (Fin 2) (Fin 45) (Fin 1) (Fin 35) (Fin 26) (Fin 780)
     = Some (Fin 52)"
    by (simp add: windfallPeriodFromChoice_def clampInt_def jmax_def jmin_def exact_def)
  have T: "totalPeriodsOf exact unfundedWindfall = Fin 780"
    by (simp add: totalPeriodsOf_def yearsOf_def unfundedWindfall_def typicalPlan_def jmax_def
        exact_def)
  have w: "windfallAtPeriod unfundedWindfall =
     windfallPeriodFromChoice exact ''year'' (Fin 2) (Fin 45) (Fin 1) (Fin 35)
       (payPeriodsPerYear unfundedWindfall) (totalPeriodsOf exact unfundedWindfall)"
    unfolding T using y by (simp add: unfundedWindfall_def typicalPlan_def)
  have a: "jle (windfallAmount unfundedWindfall) (Fin 0)"
    by (simp add: unfundedWindfall_def)
  from scheduler_result[of exact "''year''" "Fin 2" "Fin 45" "Fin 1" "Fin 35" "Fin 26" "Fin 780"
      unfundedWindfall] y w a
  show ?thesis by simp
qed

text \<open>
  With no payday left (\<open>totalPeriods = 0\<close>) the policy \<open>now\<close> still resolves to period 1,
  which is neither \<open>null\<close> nor in \<open>[1, 0]\<close>.
\<close>

theorem scheduler_not_null:
  "windfallPeriodFromChoice exact ''now'' (Fin 1) (Fin 45) (Fin 1) (Fin 35) (Fin 26) (Fin 0)
     = Some (Fin 1) \<and>
   \<not> jle (Fin 1) (Fin 0)"
  by (simp add: windfallPeriodFromChoice_def)

section \<open>Properties of the eased maximum\<close>

lemma nice_cases: "nice s = Fin 1 \<or> nice s = Fin 2 \<or> nice s = Fin 5 \<or> nice s = Fin 10"
  by (simp add: nice_def)

lemma pow10_finite: "isFinite n \<Longrightarrow> 0 < (case n of Fin x \<Rightarrow> x | _ \<Rightarrow> 1) \<Longrightarrow>
    isFinite (jpow fl (Fin 10) (jfloor (jlog10 fl n)))"
  by (cases n) auto

lemma jmul_finite: "isFinite a \<Longrightarrow> isFinite b \<Longrightarrow> isFinite (jmul fl a b)"
  by (cases a; cases b) auto

lemma niceRoundUp_finite: "isFinite (niceRoundUp fl n)"
proof (cases n)
  case (Fin x)
  show ?thesis
  proof (cases "0 < x")
    case True
    have "isFinite (jpow fl (Fin 10) (jfloor (jlog10 fl n)))"
      using True Fin by simp
    moreover have "isFinite (nice s)" for s using nice_cases[of s] by auto
    ultimately show ?thesis
      using True Fin by (simp add: niceRoundUp_def Let_def jmul_finite del: jpow.simps jmul.simps)
  next
    case False
    then show ?thesis using Fin by (simp add: niceRoundUp_def)
  qed
qed (simp_all add: niceRoundUp_def)

lemma jle_jmax: "isFinite a \<Longrightarrow> isFinite b \<Longrightarrow> jle a (jmax a b) \<and> isFinite (jmax a b)"
  by (cases a; cases b) (auto simp: jmax_def)

text \<open>
  Claim C4. \<open>computedYMax\<close> is a result of \<open>niceRoundUp\<close>, hence finite, and
  \<open>yMaxDisplay\<close> starts at 0 and stays finite. For every such state, computed maximum
  and reset token: if the token differs from the last one seen, the new \<open>yMaxDisplay\<close> is
  \<open>computedYMax\<close>; else if \<open>yMaxDisplay\<close> is 0 or \<open>computedYMax >= yMaxDisplay\<close> it is
  \<open>computedYMax\<close>; otherwise it is the larger of \<open>computedYMax\<close> and the previous value
  times 0.96 (when \<open>computedYMax\<close> is below 0.75 times the previous value) or times 0.985.
  In every case the new \<open>yMaxDisplay\<close> is at least \<open>computedYMax\<close>, and the token is
  remembered.
\<close>

theorem axis_easing:
  assumes p: "isFinite (yMaxDisplay a)" and c: "isFinite computedYMax"
  shows "(lastScaleResetToken a \<noteq> tok \<longrightarrow>
            yMaxDisplay (updateYMaxDisplay fl computedYMax tok a) = computedYMax) \<and>
         (lastScaleResetToken a = tok \<and>
            (yMaxDisplay a = Fin 0 \<or> jle (yMaxDisplay a) computedYMax) \<longrightarrow>
            yMaxDisplay (updateYMaxDisplay fl computedYMax tok a) = computedYMax) \<and>
         (lastScaleResetToken a = tok \<and> yMaxDisplay a \<noteq> Fin 0 \<and>
            \<not> jle (yMaxDisplay a) computedYMax \<longrightarrow>
            yMaxDisplay (updateYMaxDisplay fl computedYMax tok a) =
              jmax computedYMax
                (jmul fl (yMaxDisplay a)
                   (if jlt computedYMax (jmul fl (yMaxDisplay a) (Fin (fl (75 / 100))))
                    then Fin (fl (96 / 100)) else Fin (fl (985 / 1000))))) \<and>
         jle computedYMax (yMaxDisplay (updateYMaxDisplay fl computedYMax tok a)) \<and>
         isFinite (yMaxDisplay (updateYMaxDisplay fl computedYMax tok a)) \<and>
         lastScaleResetToken (updateYMaxDisplay fl computedYMax tok a) = tok"
proof -
  obtain x y where xy: "yMaxDisplay a = Fin x" "computedYMax = Fin y"
    using p c by (metis isFinite.elims(2))
  show ?thesis
  proof (cases "lastScaleResetToken a \<noteq> tok")
    case True
    then show ?thesis by (simp add: updateYMaxDisplay_def Let_def xy)
  next
    case same: False
    show ?thesis
    proof (cases "x = 0 \<or> x \<le> y")
      case True
      then show ?thesis using same by (auto simp: updateYMaxDisplay_def Let_def falsy_def xy)
    next
      case False
      then have lt: "y < x" "x \<noteq> 0" by auto
      define rate where "rate = (if jlt computedYMax (jmul fl (yMaxDisplay a) (Fin (fl (75 / 100))))
                    then Fin (fl (96 / 100)) else Fin (fl (985 / 1000)))"
      have r: "isFinite rate" by (simp add: rate_def)
      have new: "yMaxDisplay (updateYMaxDisplay fl computedYMax tok a) =
              jmax computedYMax (jmul fl (yMaxDisplay a) rate)"
        using same lt by (simp add: updateYMaxDisplay_def Let_def falsy_def xy rate_def)
      have "isFinite (jmul fl (yMaxDisplay a) rate)"
        using p r by (rule jmul_finite)
      from jle_jmax[OF c this] new
      have "jle computedYMax (yMaxDisplay (updateYMaxDisplay fl computedYMax tok a))"
        "isFinite (yMaxDisplay (updateYMaxDisplay fl computedYMax tok a))"
        by simp_all
      moreover have "lastScaleResetToken (updateYMaxDisplay fl computedYMax tok a) = tok"
        using same by (simp add: updateYMaxDisplay_def Let_def)
      ultimately show ?thesis
        using same lt new unfolding rate_def by (simp add: xy)
    qed
  qed
qed

text \<open>
  Scenario D of the specification: from the uninitialised state a computed maximum of
  1000 is taken at once; a following 400 only lowers the axis to 960; after a reset it is
  400.
\<close>

theorem axis_easing_witness:
  "isFinite (Fin 1000) \<and> isFinite (Fin 400) \<and>
   yMaxDisplay (updateYMaxDisplay exact (Fin 1000) 0
     \<lparr>yMaxDisplay = Fin 0, lastScaleResetToken = 0\<rparr>) = Fin 1000 \<and>
   yMaxDisplay (updateYMaxDisplay exact (Fin 400) 0
     \<lparr>yMaxDisplay = Fin 1000, lastScaleResetToken = 0\<rparr>) = Fin 960 \<and>
   yMaxDisplay (updateYMaxDisplay exact (Fin 400) 1
     \<lparr>yMaxDisplay = Fin 960, lastScaleResetToken = 0\<rparr>) = Fin 400"
proof -
  have f: "isFinite (Fin 1000)" "isFinite (Fin 400)" "isFinite (Fin 0)" "isFinite (Fin 960)"
    by simp_all
  from axis_easing[of "\<lparr>yMaxDisplay = Fin 0, lastScaleResetToken = 0\<rparr>" "Fin 1000" 0 exact]
  have 1: "yMaxDisplay (updateYMaxDisplay exact (Fin 1000) 0
     \<lparr>yMaxDisplay = Fin 0, lastScaleResetToken = 0\<rparr>) = Fin 1000"
    by simp
  from axis_easing[of "\<lparr>yMaxDisplay = Fin 1000, lastScaleResetToken = 0\<rparr>" "Fin 400" 0 exact]
  have 2: "yMaxDisplay (updateYMaxDisplay exact (Fin 400) 0
     \<lparr>yMaxDisplay = Fin 1000, lastScaleResetToken = 0\<rparr>) = Fin 960"
    by (simp add: exact_def jmax_def)
  from axis_easing[of "\<lparr>yMaxDisplay = Fin 960, lastScaleResetToken = 0\<rparr>" "Fin 400" 1 exact]
  have 3: "yMaxDisplay (updateYMaxDisplay exact (Fin 400) 1
     \<lparr>yMaxDisplay = Fin 960, lastScaleResetToken = 0\<rparr>) = Fin 400"
    by simp
  from 1 2 3 show ?thesis by simp
qed

section \<open>Properties of the axis ticks\<close>

declare tickLoop.simps [simp del]

declare decades.simps [simp del]

text \<open>The thinning leaves \<open>2 + floor((n - 1) / 2)\<close> of \<open>n\<close> ticks.\<close>

lemma length_odd_indices: "length (filter (\<lambda>i. i mod 2 = 1) [1..<Suc m]) = Suc m div 2"
proof (induction m)
  case 0
  then show ?case by simp
next
  case (Suc m)
  have "[1..<Suc (Suc m)] = [1..<Suc m] @ [Suc m]" by simp
  then have "length (filter (\<lambda>i. i mod 2 = 1) [1..<Suc (Suc m)]) =
     Suc m div 2 + (if Suc m mod 2 = 1 then 1 else 0)"
    using Suc by (simp del: upt_Suc)
  also have "\<dots> = Suc (Suc m) div 2" by presburger
  finally show ?case .
qed

lemma length_thin:
  assumes "2 \<le> length uniq"
  shows "length (thin uniq) = 2 + (length uniq - 1) div 2"
proof -
  from assms obtain m where m: "length uniq - 1 = Suc m"
    by (cases "length uniq - 1") auto
  show ?thesis
    using length_odd_indices[of m] unfolding thin_def m by (simp del: upt_Suc)
qed

text \<open>The ticks of \<open>makeLogTicks\<close> for a maximum of 5000, before the thinning.\<close>

lemma floor_log10_5000: "\<lfloor>log 10 (5000::real)\<rfloor> = 3"
  by (simp add: floor_log_eq_powr_iff)

lemma decades_5000:
  "decades exact (Fin 5000) (Fin 3) 0 [Fin 0] =
     Some (Inr [Fin 0, Fin 1, Fin 2, Fin 5, Fin 10, Fin 20, Fin 50, Fin 100, Fin 200, Fin 500,
      Fin 1000, Fin 2000, Fin 5000])"
  by (simp add: decades.simps push_def maxLength_def exact_def)

text \<open>
  Claim C6 fails on the code. From 13 distinct ticks on, dropping every other interior
  tick leaves more than 7: for a maximum of 5000 the ticks
  \<open>0, 1, 2, 5, 10, 20, 50, 100, 200, 500, 1000, 2000, 5000\<close> are thinned to 8.
\<close>

theorem makeLogTicks_5000:
  "makeLogTicks exact (Fin 5000) =
     Some (Inr [Fin 0, Fin 1, Fin 5, Fin 20, Fin 100, Fin 500, Fin 2000, Fin 5000]) \<and>
   length [Fin 0, Fin 1, Fin 5, Fin 20, Fin 100, Fin 500, Fin 2000, Fin 5000] = 8"
proof -
  have m: "jmax (Fin 1) (orOne (Fin 5000)) = Fin 5000"
    by (simp add: jmax_def orOne_def)
  have p: "jfloor (jlog10 exact (Fin 5000)) = Fin 3"
    by (simp add: exact_def floor_log10_5000)
  have u: "jsort [Fin 0, Fin 1, Fin 2, Fin 5, Fin 10, Fin 20, Fin 50, Fin 100, Fin 200, Fin 500,
      Fin 1000, Fin 2000, Fin 5000] = [Fin 0, Fin 1, Fin 2, Fin 5, Fin 10, Fin 20, Fin 50, Fin 100, Fin 200, Fin 500,
      Fin 1000, Fin 2000, Fin 5000]"
    by (simp add: jsort_def)
  have t: "thin [Fin 0, Fin 1, Fin 2, Fin 5, Fin 10, Fin 20, Fin 50, Fin 100, Fin 200, Fin 500,
      Fin 1000, Fin 2000, Fin 5000] = [Fin 0, Fin 1, Fin 5, Fin 20, Fin 100, Fin 500, Fin 2000, Fin 5000]"
    by (simp add: thin_def upt_rec[of _ "numeral _"])
  show ?thesis
    unfolding makeLogTicks_def Let_def m p decades_5000
    by (simp add: dedupe_def u t)
qed

text \<open>
  The loop of \<open>pickTicks\<close>. The only error is the RangeError of a full array. A value
  within the limit that the step does not move is pushed until the array is full: so is
  every value when the step is 0, and so is \<open>2^53\<close> in binary64 when the step is 1.
\<close>

lemma error_eq: "(e::error) = RangeError"
  by (cases e) simp

lemma tickLoop_unfold:
  "tickLoop fl limit step v ticks =
     (if jle v limit
      then (if length ticks < maxLength
            then tickLoop fl limit step (jadd fl v step) (ticks @ [v])
            else Inl RangeError)
      else Inr ticks)"
  by (subst tickLoop.simps) (simp add: push_def)

lemma tickLoop_stuck:
  assumes "jle v limit" "jadd fl v step = v"
  shows "tickLoop fl limit step v ticks = Inl RangeError"
proof (induction "maxLength - length ticks" arbitrary: ticks)
  case 0
  then show ?case using assms(1) by (subst tickLoop_unfold) simp
next
  case (Suc n)
  then have "n = maxLength - length (ticks @ [v])" "length ticks < maxLength" by simp_all
  with Suc(1)[of "ticks @ [v]"] show ?case
    using assms by (subst tickLoop_unfold) simp
qed

lemma tickLoop_sticks:
  "tickLoop rd53 (Fin 10000000000000000) (Fin 1) (Fin 9007199254740992) ticks = Inl RangeError"
  by (rule tickLoop_stuck) simp_all

text \<open>
  What the loop returns, when it returns: the ticks it was given, followed by the values
  it pushed, \<open>v\<close> first. From a finite \<open>v\<close> on all of them are finite, whatever the step
  and the limit are: with an infinite step the second value is infinite, and it is either
  beyond the limit or pushed until the array is full.
\<close>

lemma tickLoop_prefix:
  "tickLoop fl limit step v ticks = Inr res \<Longrightarrow>
     \<exists>new. res = ticks @ new \<and> (if jle v limit then new \<noteq> [] \<and> hd new = v else new = [])"
proof (induction fl limit step v ticks rule: tickLoop.induct)
  case (1 fl limit step v ticks)
  show ?case
  proof (cases "jle v limit")
    case True
    with 1(2) have room: "length ticks < maxLength"
      and r: "tickLoop fl limit step (jadd fl v step) (ticks @ [v]) = Inr res"
      by (simp_all add: tickLoop_unfold[of fl limit step v] split: if_splits)
    from 1(1)[OF True _ r] room obtain new where "res = (ticks @ [v]) @ new"
      by (auto simp: push_def)
    then show ?thesis using True by (intro exI[of _ "v # new"]) simp
  next
    case False
    with 1(2) show ?thesis by (simp add: tickLoop_unfold[of fl limit step v])
  qed
qed

lemma tickLoop_finite_step:
  "tickLoop fl limit (Fin s) v ticks = Inr res \<Longrightarrow> isFinite v \<Longrightarrow>
     list_all isFinite ticks \<Longrightarrow> list_all isFinite res"
proof (induction fl limit "Fin s" v ticks rule: tickLoop.induct)
  case (1 fl limit v ticks)
  show ?case
  proof (cases "jle v limit")
    case True
    with 1(2) have room: "length ticks < maxLength"
      and r: "tickLoop fl limit (Fin s) (jadd fl v (Fin s)) (ticks @ [v]) = Inr res"
      by (simp_all add: tickLoop_unfold[of fl limit "Fin s" v] split: if_splits)
    have "isFinite (jadd fl v (Fin s))" using 1(3) by (cases v) simp_all
    then show ?thesis
      using 1(1)[OF True _ r] room 1(3,4) by (simp add: push_def)
  next
    case False
    with 1(2,4) show ?thesis by (simp add: tickLoop_unfold[of fl limit "Fin s" v])
  qed
qed

lemma tickLoop_once:
  assumes "\<not> jle w limit \<or> jadd fl w step = w" "jadd fl v step = w"
    and "tickLoop fl limit step v ticks = Inr res"
  shows "res = ticks \<or> res = ticks @ [v]"
proof (cases "jle v limit")
  case True
  with assms(3) have room: "length ticks < maxLength"
    and r: "tickLoop fl limit step w (ticks @ [v]) = Inr res"
    by (simp_all add: tickLoop_unfold[of fl limit step v] assms(2) split: if_splits)
  have "\<not> jle w limit"
  proof
    assume w: "jle w limit"
    with assms(1) have "jadd fl w step = w" by simp
    from tickLoop_stuck[OF w this] r show False by simp
  qed
  with r show ?thesis by (simp add: tickLoop_unfold[of fl limit step w])
next
  case False
  with assms(3) show ?thesis by (simp add: tickLoop_unfold[of fl limit step v])
qed

lemma tickLoop_finite:
  assumes "tickLoop fl limit step v ticks = Inr res" "isFinite v" "list_all isFinite ticks"
  shows "list_all isFinite res"
proof (cases step)
  case (Fin s)
  with assms show ?thesis by (simp add: tickLoop_finite_step)
next
  case PInf
  obtain x where v: "v = Fin x" using assms(2) by (cases v) auto
  have "res = ticks \<or> res = ticks @ [v]"
    by (rule tickLoop_once[OF _ _ assms(1), of PInf]) (simp_all add: PInf v)
  then show ?thesis using assms(2,3) by auto
next
  case NInf
  obtain x where v: "v = Fin x" using assms(2) by (cases v) auto
  have "res = ticks \<or> res = ticks @ [v]"
    by (rule tickLoop_once[OF _ _ assms(1), of NInf]) (simp_all add: NInf v)
  then show ?thesis using assms(2,3) by auto
next
  case NaN
  obtain x where v: "v = Fin x" using assms(2) by (cases v) auto
  have "res = ticks \<or> res = ticks @ [v]"
    by (rule tickLoop_once[OF _ _ assms(1), of NaN]) (simp_all add: NaN v)
  then show ?thesis using assms(2,3) by auto
qed

lemma pickTicks_returned:
  assumes "pickTicks fl min' max' targetTicks = Inr ticks"
  shows "list_all isFinite ticks \<and> (ticks \<noteq> [] \<longrightarrow> hd ticks = Fin 0)"
proof (cases "\<not> isFinite min' \<or> \<not> isFinite max' \<or> jle max' min'")
  case True
  with assms show ?thesis by (simp add: pickTicks_def)
next
  case False
  define step where "step = niceStep fl (jsub fl max' min') targetTicks"
  define limit where "limit = jadd fl (jmax step (niceCeil fl max')) (jdiv fl step (Fin 2))"
  from assms False have r: "tickLoop fl limit step (Fin 0) [] = Inr ticks"
    by (simp add: pickTicks_def Let_def step_def limit_def)
  from tickLoop_finite[OF r] have "list_all isFinite ticks" by simp
  moreover from tickLoop_prefix[OF r] have "ticks \<noteq> [] \<longrightarrow> hd ticks = Fin 0"
    by (auto split: if_splits)
  ultimately show ?thesis by simp
qed

text \<open>
  With a rounding that keeps the sign, the step and the limit of \<open>pickTicks\<close> are finite
  and not negative when the tick target is not NaN (the step can be 0: for an infinite
  tick target it is). So the loop pushes 0.
\<close>

lemma nonnegE: "nonneg x \<Longrightarrow> (\<And>v. x = Fin v \<Longrightarrow> 0 \<le> v \<Longrightarrow> P) \<Longrightarrow> P"
  by (cases x) (auto simp: nonneg_def)

lemma pow10_nonneg:
  assumes "\<forall>x. 0 \<le> x \<longrightarrow> 0 \<le> fl x"
  shows "nonneg (jpow fl (Fin 10) (Fin y))"
  using assms by (simp add: nonneg_def)

lemma snap_nonneg:
  assumes fl: "\<forall>x. 0 \<le> x \<longrightarrow> 0 \<le> fl x" and r: "0 \<le> r"
  shows "nonneg (jmul fl (nice (jdiv fl (Fin r) (jpow fl (Fin 10) (jfloor (jlog10 fl (Fin r))))))
                   (jpow fl (Fin 10) (jfloor (jlog10 fl (Fin r)))))"
proof (cases "r = 0")
  case True
  then show ?thesis using fl by (simp add: nice_def nonneg_def)
next
  case False
  then have "0 < r" using r by simp
  then obtain y where y: "jfloor (jlog10 fl (Fin r)) = Fin y" by simp
  obtain q where q: "jpow fl (Fin 10) (Fin y) = Fin q" "0 \<le> q"
    using pow10_nonneg[OF fl, of y] by (auto elim!: nonnegE)
  obtain c where c: "nice (jdiv fl (Fin r) (Fin q)) = Fin c" "0 \<le> c"
    using nice_cases[of "jdiv fl (Fin r) (Fin q)"] by auto
  have "0 \<le> fl (c * q)" using fl c(2) q(2) by simp
  then show ?thesis unfolding y q c by (simp add: nonneg_def)
qed

lemma niceCeil_nonneg:
  assumes fl: "\<forall>x. 0 \<le> x \<longrightarrow> 0 \<le> fl x"
  shows "nonneg (niceCeil fl n)"
proof (cases n)
  case (Fin x)
  show ?thesis
  proof (cases "0 < x")
    case True
    then have "0 \<le> x" by simp
    from snap_nonneg[OF fl this] show ?thesis using True Fin
      by (simp add: niceCeil_def Let_def del: jpow.simps jmul.simps jdiv.simps jlog10.simps)
  next
    case False
    then show ?thesis using Fin by (simp add: niceCeil_def nonneg_def)
  qed
qed (simp_all add: niceCeil_def nonneg_def)

lemma niceStep_nonneg:
  assumes fl: "\<forall>x. 0 \<le> x \<longrightarrow> 0 \<le> fl x" and t: "targetTicks \<noteq> NaN"
  shows "nonneg (niceStep fl s targetTicks)"
proof (cases s)
  case (Fin x)
  show ?thesis
  proof (cases "0 < x")
    case True
    have "\<exists>r\<ge>0. jdiv fl (Fin x) (jmax (Fin 1) targetTicks) = Fin r"
    proof (cases targetTicks)
      case (Fin t)
      then have "jmax (Fin 1) targetTicks = Fin (max 1 t)" by (simp add: jmax_def max_def)
      moreover have "0 \<le> fl (x / max 1 t)" using fl True by simp
      ultimately show ?thesis by simp
    next
      case PInf
      then show ?thesis by (simp add: jmax_def)
    next
      case NInf
      moreover have "0 \<le> fl x" using fl True by simp
      ultimately show ?thesis by (simp add: jmax_def)
    next
      case NaN
      then show ?thesis using t by simp
    qed
    then obtain r where r: "jdiv fl (Fin x) (jmax (Fin 1) targetTicks) = Fin r" "0 \<le> r" by blast
    from snap_nonneg[OF fl r(2)] show ?thesis using True Fin
      by (simp add: niceStep_def Let_def r(1) del: jpow.simps jmul.simps jdiv.simps jlog10.simps)
  next
    case False
    then show ?thesis using Fin by (simp add: niceStep_def nonneg_def)
  qed
qed (simp_all add: niceStep_def nonneg_def)

lemma pickTicks_nonempty:
  assumes fl: "\<forall>x. 0 \<le> x \<longrightarrow> 0 \<le> fl x"
    and "isFinite min'" "isFinite max'" "jlt min' max'" "targetTicks \<noteq> NaN"
  shows "pickTicks fl min' max' targetTicks \<noteq> Inr []"
proof
  assume e: "pickTicks fl min' max' targetTicks = Inr []"
  have g: "\<not> (\<not> isFinite min' \<or> \<not> isFinite max' \<or> jle max' min')"
    using assms(2-4) by (cases min'; cases max') auto
  obtain s where s: "niceStep fl (jsub fl max' min') targetTicks = Fin s" "0 \<le> s"
    using niceStep_nonneg[OF fl assms(5)] by (auto elim!: nonnegE)
  obtain c where c: "niceCeil fl max' = Fin c" "0 \<le> c"
    using niceCeil_nonneg[OF fl] by (auto elim!: nonnegE)
  define L where "L = fl (max s c + fl (s / 2))"
  have lim: "jadd fl (jmax (Fin s) (Fin c)) (jdiv fl (Fin s) (Fin 2)) = Fin L"
    by (simp add: jmax_def L_def max_def)
  have "0 \<le> fl (s / 2)" using fl s(2) by simp
  then have "0 \<le> max s c + fl (s / 2)" using s(2) by simp
  then have L: "0 \<le> L" using fl by (simp add: L_def)
  from e g have "tickLoop fl (Fin L) (Fin s) (Fin 0) [] = Inr []"
    unfolding pickTicks_def Let_def s c lim by simp
  from tickLoop_prefix[OF this] L show False by simp
qed

text \<open>
  A tick target of NaN makes the step and the limit NaN: nothing is pushed, not even 0.
\<close>

lemma pickTicks_NaN_target: "pickTicks exact (Fin 0) (Fin 10) NaN = Inr []"
  by (simp add: pickTicks_def niceStep_def Let_def jmax_def nice_def exact_def
      tickLoop_unfold)

text \<open>
  The loops of \<open>makeLogTicks\<close>. One round of the inner loop appends at most three
  values, each a product of a base and the power of ten; it throws only when the array is
  full.
\<close>

lemma pushBases_result:
  "pushBases fl m pow bases ticks = Inr res \<Longrightarrow>
     \<exists>new. res = ticks @ new \<and> length new \<le> length bases \<and>
       (\<forall>x\<in>set new. \<exists>b\<in>set bases. x = jmul fl b pow)"
proof (induction bases arbitrary: ticks)
  case Nil
  then show ?case by simp
next
  case (Cons b bases)
  show ?case
  proof (cases "jle (jmul fl b pow) m")
    case True
    with Cons.prems have r: "pushBases fl m pow bases (ticks @ [jmul fl b pow]) = Inr res"
      by (simp add: Let_def push_def split: if_splits)
    from Cons.IH[OF r] obtain new where
      "res = (ticks @ [jmul fl b pow]) @ new" "length new \<le> length bases"
      "\<forall>x\<in>set new. \<exists>b\<in>set bases. x = jmul fl b pow"
      by blast
    then show ?thesis by (intro exI[of _ "jmul fl b pow # new"]) auto
  next
    case False
    with Cons.prems have "pushBases fl m pow bases ticks = Inr res" by (simp add: Let_def)
    from Cons.IH[OF this] show ?thesis by auto
  qed
qed

lemma pushBases_room:
  "length ticks + length bases \<le> maxLength \<Longrightarrow> \<exists>res. pushBases fl m pow bases ticks = Inr res"
proof (induction bases arbitrary: ticks)
  case Nil
  then show ?case by simp
next
  case (Cons b bases)
  then have "length (ticks @ [jmul fl b pow]) + length bases \<le> maxLength"
    "length ticks + length bases \<le> maxLength" "length ticks < maxLength"
    by simp_all
  with Cons.IH[of "ticks @ [jmul fl b pow]"] Cons.IH[of ticks] show ?case
    by (simp add: Let_def push_def)
qed

lemma pushBases_all:
  "pushBases fl m pow bases ticks = Inr res \<Longrightarrow> \<forall>b\<in>set bases. jle (jmul fl b pow) m \<Longrightarrow>
     length res = length ticks + length bases \<and> (bases \<noteq> [] \<longrightarrow> length res \<le> maxLength)"
proof (induction bases arbitrary: ticks)
  case Nil
  then show ?case by simp
next
  case (Cons b bases)
  then have r: "pushBases fl m pow bases (ticks @ [jmul fl b pow]) = Inr res"
    and room: "length ticks < maxLength"
    by (simp_all add: Let_def push_def split: if_splits)
  have "\<forall>b\<in>set bases. jle (jmul fl b pow) m" using Cons.prems(2) by simp
  note ih = Cons.IH[OF r this]
  from ih have l: "length res = length ticks + 1 + length bases" by simp
  from ih have b: "bases \<noteq> [] \<longrightarrow> length res \<le> maxLength" by blast
  have "length res \<le> maxLength"
  proof (cases bases)
    case Nil
    then show ?thesis using l room by simp
  next
    case (Cons c cs)
    then show ?thesis using b by simp
  qed
  with l show ?case by simp
qed

lemma pow10_Fin: "\<exists>q. jpow fl (Fin 10) (Fin y) = Fin q"
  by simp

lemma pushBases_finite:
  assumes "pushBases fl m (jpow fl (Fin 10) (Fin y)) [Fin 1, Fin 2, Fin 5] ticks = Inr res"
  shows "\<exists>new. res = ticks @ new \<and> list_all isFinite new \<and> length new \<le> 3"
proof -
  obtain q where q: "jpow fl (Fin 10) (Fin y) = Fin q" using pow10_Fin by blast
  from pushBases_result[OF assms] obtain new where
    new: "res = ticks @ new" "length new \<le> 3"
      "\<forall>x\<in>set new. \<exists>b\<in>set [Fin 1, Fin 2, Fin 5]. x = jmul fl b (Fin q)"
    unfolding q by auto
  from new(3) have "list_all isFinite new" by (auto simp: list_all_iff)
  with new(1,2) show ?thesis by blast
qed

text \<open>
  The outer loop ends for a finite \<open>maxPow\<close>, whatever the rounding; the ticks it adds
  are finite, and it throws only when the array is full. For a maximum of \<open>+\<infinity>\<close> every
  round pushes three ticks, and the loop ends in the RangeError.
\<close>

lemma decades_unfold:
  "decades fl m (Fin (of_int k)) p ticks =
     (if p \<le> k
      then (case pushBases fl m (jpow fl (Fin 10) (Fin (of_int p))) [Fin 1, Fin 2, Fin 5] ticks of
              Inl e \<Rightarrow> Some (Inl e)
            | Inr ticks' \<Rightarrow> decades fl m (Fin (of_int k)) (p + 1) ticks')
      else Some (Inr ticks))"
  by (subst decades.simps) simp

lemma decades_finite:
  "\<exists>out. decades fl m (Fin (of_int k)) p ticks = Some out \<and>
     (\<forall>res. out = Inr res \<longrightarrow> (\<exists>new. res = ticks @ new \<and> list_all isFinite new))"
proof (induction "nat (k + 1 - p)" arbitrary: p ticks)
  case 0
  then have "\<not> p \<le> k" by simp
  then show ?case by (simp add: decades_unfold[of _ _ k p])
next
  case (Suc n)
  then have le: "p \<le> k" and n: "n = nat (k + 1 - (p + 1))" by simp_all
  show ?case
  proof (cases "pushBases fl m (jpow fl (Fin 10) (Fin (of_int p))) [Fin 1, Fin 2, Fin 5] ticks")
    case (Inl e)
    then show ?thesis using le by (simp add: decades_unfold[of _ _ k p])
  next
    case (Inr ticks')
    from pushBases_finite[OF Inr] obtain new1 where
      new1: "ticks' = ticks @ new1" "list_all isFinite new1" by blast
    from Suc(1)[OF n, of ticks'] obtain out where
      out: "decades fl m (Fin (of_int k)) (p + 1) ticks' = Some out"
        "\<forall>res. out = Inr res \<longrightarrow> (\<exists>new. res = ticks' @ new \<and> list_all isFinite new)"
      by blast
    have "\<exists>new. res = ticks @ new \<and> list_all isFinite new" if "out = Inr res" for res
    proof -
      from out(2) that obtain new where "res = ticks' @ new" "list_all isFinite new" by blast
      then show ?thesis using new1 by (intro exI[of _ "new1 @ new"]) simp
    qed
    then show ?thesis using le Inr out(1) by (simp add: decades_unfold[of _ _ k p])
  qed
qed

lemma decades_room:
  "length ticks + 3 * nat (k + 1 - p) \<le> maxLength \<Longrightarrow>
     \<exists>res. decades fl m (Fin (of_int k)) p ticks = Some (Inr res) \<and>
       length res \<le> length ticks + 3 * nat (k + 1 - p)"
proof (induction "nat (k + 1 - p)" arbitrary: p ticks)
  case 0
  then have "\<not> p \<le> k" by simp
  then show ?case by (simp add: decades_unfold[of _ _ k p])
next
  case (Suc n)
  then have le: "p \<le> k" and n: "n = nat (k + 1 - (p + 1))" by simp_all
  have s: "nat (k + 1 - p) = Suc (nat (k + 1 - (p + 1)))" using le by simp
  have "length ticks + length [Fin 1, Fin 2, Fin 5 :: number] \<le> maxLength"
    using Suc.prems s by simp
  from pushBases_room[OF this] obtain ticks' where
    t: "pushBases fl m (jpow fl (Fin 10) (Fin (of_int p))) [Fin 1, Fin 2, Fin 5] ticks = Inr ticks'"
    by blast
  from pushBases_finite[OF t] have l: "length ticks' \<le> length ticks + 3" by auto
  then have "length ticks' + 3 * nat (k + 1 - (p + 1)) \<le> maxLength"
    using Suc.prems s by simp
  from Suc(1)[OF n this] obtain res where
    "decades fl m (Fin (of_int k)) (p + 1) ticks' = Some (Inr res)"
    "length res \<le> length ticks' + 3 * nat (k + 1 - (p + 1))" by blast
  then show ?case using le t l s by (simp add: decades_unfold[of _ _ k p])
qed

lemma decades_infinite: "decades fl PInf PInf p ticks = Some (Inl RangeError)"
proof (induction "maxLength - length ticks" arbitrary: p ticks rule: less_induct)
  case less
  obtain q where q: "jpow fl (Fin 10) (Fin (of_int p)) = Fin q" using pow10_Fin by blast
  have step: "decades fl PInf PInf p ticks =
      (case pushBases fl PInf (Fin q) [Fin 1, Fin 2, Fin 5] ticks of
         Inl e \<Rightarrow> Some (Inl e)
       | Inr ticks' \<Rightarrow> decades fl PInf PInf (p + 1) ticks')"
    by (subst decades.simps) (simp only: q jle.simps if_True)
  show ?case
  proof (cases "pushBases fl PInf (Fin q) [Fin 1, Fin 2, Fin 5] ticks")
    case (Inl e)
    then show ?thesis unfolding step by (simp add: error_eq[of e])
  next
    case (Inr ticks')
    have "\<forall>b\<in>set [Fin 1, Fin 2, Fin 5]. jle (jmul fl b (Fin q)) PInf" by simp
    from pushBases_all[OF Inr this] have "length ticks' = length ticks + 3"
      "length ticks' \<le> maxLength" by simp_all
    then have "maxLength - length ticks' < maxLength - length ticks" by simp
    from less[OF this] show ?thesis unfolding step Inr by simp
  qed
qed

text \<open>\<open>makeLogTicks\<close> as a whole.\<close>

lemma m_finite:
  "x \<noteq> PInf \<Longrightarrow> jmax (Fin 1) (orOne x) = Fin (case x of Fin y \<Rightarrow> max 1 y | _ \<Rightarrow> 1)"
  by (cases x) (auto simp: orOne_def jmax_def max_def)

lemma m_infinite: "jmax (Fin 1) (orOne PInf) = PInf"
  by (simp add: orOne_def jmax_def)

lemma maxPow_finite: "1 \<le> r \<Longrightarrow> jfloor (jlog10 fl (Fin r)) = Fin (of_int \<lfloor>fl (log 10 r)\<rfloor>)"
  by simp

lemma set_jinsert: "set (jinsert x ys) = insert x (set ys)"
  by (induction ys) auto

lemma set_jsort: "set (jsort xs) = set xs"
  by (induction xs) (simp_all add: jsort_def set_jinsert)

lemma set_uniq: "set (jsort (dedupe ticks)) = set ticks"
  by (simp add: set_jsort dedupe_def)

lemma thin_props:
  assumes "list_all isFinite uniq" "uniq \<noteq> []"
  shows "list_all isFinite (thin uniq) \<and> Fin 0 \<in> set (thin uniq)"
proof -
  have "isFinite (uniq ! i)" if "i < length uniq" for i
    using assms(1) that by (simp add: list_all_length)
  then show ?thesis
    using assms(2) by (auto simp: thin_def list_all_iff)
qed

lemma makeLogTicks_infinite: "makeLogTicks fl PInf = Some (Inl RangeError)"
  by (simp add: makeLogTicks_def m_infinite decades_infinite)

lemma makeLogTicks_unfold:
  assumes "x \<noteq> PInf"
  defines "r \<equiv> (case x of Fin y \<Rightarrow> max 1 y | _ \<Rightarrow> 1)"
  shows "makeLogTicks fl x =
     (case decades fl (Fin r) (Fin (of_int \<lfloor>fl (log 10 r)\<rfloor>)) 0 [Fin 0] of
           None \<Rightarrow> None
         | Some (Inl e) \<Rightarrow> Some (Inl e)
         | Some (Inr ticks0) \<Rightarrow>
             (case (if \<not> jseq (last ticks0) (Fin r) then push ticks0 (Fin r) else Inr ticks0) of
                Inl e \<Rightarrow> Some (Inl e)
              | Inr ticks \<Rightarrow>
                  Some (Inr (if length (jsort (dedupe ticks)) \<le> 7 then jsort (dedupe ticks)
                             else thin (jsort (dedupe ticks))))))"
proof -
  have r: "1 \<le> r" by (cases x) (simp_all add: r_def)
  show ?thesis
    unfolding makeLogTicks_def Let_def m_finite[OF assms(1)] r_def[symmetric] maxPow_finite[OF r]
    by (rule refl)
qed

lemma makeLogTicks_ends: "\<exists>out. makeLogTicks fl x = Some out"
proof (cases "x = PInf")
  case True
  then show ?thesis by (simp add: makeLogTicks_infinite)
next
  case False
  define r where "r = (case x of Fin y \<Rightarrow> max 1 y | _ \<Rightarrow> 1)"
  obtain out where "decades fl (Fin r) (Fin (of_int \<lfloor>fl (log 10 r)\<rfloor>)) 0 [Fin 0] = Some out"
    using decades_finite by blast
  then show ?thesis
    unfolding makeLogTicks_unfold[OF False] r_def[symmetric]
    by (simp split: sum.splits)
qed

lemma makeLogTicks_returned:
  assumes "makeLogTicks fl x = Some (Inr ticks)"
  shows "list_all isFinite ticks \<and> Fin 0 \<in> set ticks"
proof (cases "x = PInf")
  case True
  with assms show ?thesis by (simp add: makeLogTicks_infinite)
next
  case False
  define r where "r = (case x of Fin y \<Rightarrow> max 1 y | _ \<Rightarrow> 1)"
  obtain out where out: "decades fl (Fin r) (Fin (of_int \<lfloor>fl (log 10 r)\<rfloor>)) 0 [Fin 0] = Some out"
    "\<forall>res. out = Inr res \<longrightarrow> (\<exists>new. res = [Fin 0] @ new \<and> list_all isFinite new)"
    using decades_finite by blast
  from assms obtain ticks0 where t0: "out = Inr ticks0"
    unfolding makeLogTicks_unfold[OF False] r_def[symmetric] out(1)
    by (cases out) simp_all
  define all where "all = (if \<not> jseq (last ticks0) (Fin r) then ticks0 @ [Fin r] else ticks0)"
  from assms have t: "ticks = (if length (jsort (dedupe all)) \<le> 7 then jsort (dedupe all)
                             else thin (jsort (dedupe all)))"
    unfolding makeLogTicks_unfold[OF False] r_def[symmetric] out(1) t0 all_def
    by (auto simp: push_def split: if_splits)
  from out(2) t0 obtain new where "ticks0 = [Fin 0] @ new" "list_all isFinite new" by blast
  then have "list_all isFinite all" "Fin 0 \<in> set all" by (simp_all add: all_def)
  then have u: "list_all isFinite (jsort (dedupe all))" "Fin 0 \<in> set (jsort (dedupe all))"
    by (simp_all add: list_all_iff set_uniq)
  then have "jsort (dedupe all) \<noteq> []" by auto
  from thin_props[OF u(1) this] u show ?thesis by (simp add: t)
qed

lemma makeLogTicks_small:
  assumes "fl 0 = 0" "fl 1 = 1" "fl 2 = 2" "fl 5 = 5" and x: "x = NaN \<or> jle x (Fin 1)"
  shows "makeLogTicks fl x = Some (Inr [Fin 0, Fin 1])"
proof -
  have inf: "x \<noteq> PInf" using x by auto
  have r: "(case x of Fin y \<Rightarrow> max 1 y | _ \<Rightarrow> 1) = 1"
    using x by (cases x) (auto simp: max_def)
  have b: "pushBases fl (Fin 1) (jpow fl (Fin 10) (Fin 0)) [Fin 1, Fin 2, Fin 5] [Fin 0] =
      Inr [Fin 0, Fin 1]"
    using assms(2-4) by (simp add: push_def maxLength_def)
  have d1: "decades fl (Fin 1) (Fin 0) 1 [Fin 0, Fin 1] = Some (Inr [Fin 0, Fin 1])"
    by (subst decades.simps) simp
  have d: "decades fl (Fin 1) (Fin 0) 0 [Fin 0] = Some (Inr [Fin 0, Fin 1])"
    by (subst decades.simps) (simp add: b d1 del: pushBases.simps jpow.simps)
  show ?thesis
    unfolding makeLogTicks_unfold[OF inf] r by (simp add: assms(1) d jsort_def dedupe_def)
qed

lemma makeLogTicks_returns:
  assumes mono: "\<forall>x y. x \<le> y \<longrightarrow> fl x \<le> fl y" and f: "fl 309 = 309"
    and x: "x = NaN \<or> jle x (Fin (10 ^ 309))"
  shows "\<exists>ticks. makeLogTicks fl x = Some (Inr ticks)"
proof -
  have inf: "x \<noteq> PInf" using x by auto
  define r where "r = (case x of Fin y \<Rightarrow> max 1 y | _ \<Rightarrow> 1)"
  define B where "B = (10::real) ^ 309"
  have B: "1 \<le> B" unfolding B_def by (rule one_le_power) simp
  have "x = NaN \<or> jle x (Fin B)" unfolding B_def by (rule x)
  then have r: "1 \<le> r" "r \<le> B" using B by (cases x; simp add: r_def)+
  have "log 10 r \<le> log 10 B" using r by (subst log_le_cancel_iff) simp_all
  also have "\<dots> = 309" unfolding B_def by (subst log_pow_cancel) simp_all
  finally have "fl (log 10 r) \<le> 309" using mono f by metis
  then have "\<lfloor>fl (log 10 r)\<rfloor> \<le> \<lfloor>309 :: real\<rfloor>" by (rule floor_mono)
  define k where "k = \<lfloor>fl (log 10 r)\<rfloor>"
  have k: "k \<le> 309" using \<open>\<lfloor>fl (log 10 r)\<rfloor> \<le> \<lfloor>309 :: real\<rfloor>\<close> by (simp add: k_def)
  then have "3 * nat (k + 1 - 0) \<le> 930" by linarith
  then have "length [Fin 0 :: number] + 3 * nat (k + 1 - 0) \<le> maxLength"
    by (simp add: maxLength_def)
  from decades_room[OF this, of fl "Fin r"] obtain res where
    res: "decades fl (Fin r) (Fin (of_int k)) 0 [Fin 0] = Some (Inr res)"
      "length res \<le> 1 + 3 * nat (k + 1 - 0)"
    by auto
  have "length res < maxLength" using res(2) \<open>3 * nat (k + 1 - 0) \<le> 930\<close>
    by (simp add: maxLength_def)
  then show ?thesis
    unfolding makeLogTicks_unfold[OF inf] r_def[symmetric] k_def[symmetric] res(1)
    by (simp add: push_def)
qed

text \<open>
  Runs. \<open>pickTicks(0, 5000, 3)\<close>, the call of the chart for a maximum of 5000, returns
  \<open>[0, 2000, 4000, 6000]\<close> in exact arithmetic and in binary64.
\<close>

lemma floor_log10_raw: "\<lfloor>log 10 (5000 / 3 :: real)\<rfloor> = 3"
  by (simp add: floor_log_eq_powr_iff)

lemma pickTicks_5000:
  "pickTicks exact (Fin 0) (Fin 5000) (Fin 3) = Inr [Fin 0, Fin 2000, Fin 4000, Fin 6000]"
proof -
  have s: "niceStep exact (Fin 5000) (Fin 3) = Fin 2000"
    by (simp add: niceStep_def Let_def jmax_def exact_def floor_log10_raw nice_def)
  have c: "niceCeil exact (Fin 5000) = Fin 5000"
    by (simp add: niceCeil_def Let_def exact_def floor_log10_5000 nice_def)
  have "tickLoop exact (Fin 6000) (Fin 2000) (Fin 0) [] = Inr [Fin 0, Fin 2000, Fin 4000, Fin 6000]"
    by (simp add: tickLoop_unfold maxLength_def exact_def)
  then show ?thesis
    by (simp add: pickTicks_def Let_def exact_def s c jmax_def)
qed

lemma raw_bounds: "1666 \<le> rd53 (5000 / 3)" "rd53 (5000 / 3) \<le> 1667"
  using rd53_mono[of 1666 "5000 / 3"] rd53_mono[of "5000 / 3" 1667]
  by (simp_all add: rd53_numeral)

lemma floor_rd53:
  assumes "of_int k \<le> x" "x \<le> c" "rd53 (of_int k) = of_int k" "rd53 c = c" "c < of_int k + 1"
  shows "\<lfloor>rd53 x\<rfloor> = k"
proof -
  have "of_int k \<le> rd53 x" using rd53_mono[OF assms(1)] assms(3) by simp
  moreover have "rd53 x \<le> c" using rd53_mono[OF assms(2)] assms(4) by simp
  ultimately show ?thesis using assms(5) by (intro floor_unique) simp_all
qed

lemma log10_bounds:
  assumes "(10::real) ^ a \<le> x ^ j" "x ^ j \<le> 10 ^ b" "0 < x" "0 < j"
  shows "real a / real j \<le> log 10 x" "log 10 x \<le> real b / real j"
proof -
  have "log 10 (10 ^ a) \<le> log 10 (x ^ j)"
    using assms(1,3) by (subst log_le_cancel_iff) simp_all
  then have "real a \<le> real j * log 10 x"
    using assms(3) by (simp add: log_nat_power)
  then show "real a / real j \<le> log 10 x"
    using assms(4) by (simp add: pos_divide_le_eq mult.commute)
  have "log 10 (x ^ j) \<le> log 10 (10 ^ b)"
    using assms(2,3) by (subst log_le_cancel_iff) simp_all
  then have "real j * log 10 x \<le> real b"
    using assms(3) by (simp add: log_nat_power)
  then show "log 10 x \<le> real b / real j"
    using assms(4) by (simp add: pos_le_divide_eq mult.commute)
qed

lemma niceStep_rd53: "niceStep rd53 (Fin 5000) (Fin 3) = Fin 2000"
proof -
  define a where "a = rd53 (5000 / 3)"
  have a: "1666 \<le> a" "a \<le> 1667" using raw_bounds by (simp_all add: a_def)
  have raw: "jdiv rd53 (Fin 5000) (jmax (Fin 1) (Fin 3)) = Fin a"
    by (simp add: jmax_def a_def)
  have "1666 ^ 2 \<le> a ^ 2" "a ^ 2 \<le> 1667 ^ 2"
    using a by (intro power_mono; simp; fail)+
  then have "(10::real) ^ 6 \<le> a ^ 2" "a ^ 2 \<le> 10 ^ 7" by simp_all
  from log10_bounds[OF this] a have "3 \<le> log 10 a" "log 10 a \<le> 7 / 2" by simp_all
  then have "\<lfloor>rd53 (log 10 a)\<rfloor> = 3"
    by (intro floor_rd53[where c = "7 / 2"]) (simp_all add: rd53_numeral)
  then have pow: "jpow rd53 (Fin 10) (jfloor (jlog10 rd53 (Fin a))) = Fin 1000"
    using a by (simp add: rd53_numeral)
  have "rd53 (3 / 2) \<le> rd53 (a / 1000)" "rd53 (a / 1000) \<le> rd53 2"
    using a by (intro rd53_mono; simp; fail)+
  then have "nice (jdiv rd53 (Fin a) (Fin 1000)) = Fin 2"
    by (simp add: nice_def rd53_numeral)
  then show ?thesis
    by (simp add: niceStep_def Let_def raw pow rd53_numeral
        del: jpow.simps jlog10.simps jfloor.simps jdiv.simps)
qed

lemma niceCeil_rd53: "niceCeil rd53 (Fin 5000) = Fin 5000"
proof -
  have "(10::real) ^ 14 \<le> 5000 ^ 4" "(5000::real) ^ 4 \<le> 10 ^ 15" by simp_all
  from log10_bounds[OF this]
  have "3 \<le> log 10 (5000::real)" "log 10 (5000::real) \<le> 15 / 4" by simp_all
  then have "\<lfloor>rd53 (log 10 5000)\<rfloor> = 3"
    by (intro floor_rd53[where c = "15 / 4"]) (simp_all add: rd53_numeral)
  then show ?thesis
    by (simp add: niceCeil_def Let_def nice_def rd53_numeral)
qed

lemma pickTicks_rd53:
  "pickTicks rd53 (Fin 0) (Fin 5000) (Fin 3) = Inr [Fin 0, Fin 2000, Fin 4000, Fin 6000]"
proof -
  have "tickLoop rd53 (Fin 6000) (Fin 2000) (Fin 0) [] = Inr [Fin 0, Fin 2000, Fin 4000, Fin 6000]"
    by (simp add: tickLoop_unfold maxLength_def rd53_numeral)
  then show ?thesis
    by (simp add: pickTicks_def Let_def niceStep_rd53 niceCeil_rd53 jmax_def rd53_numeral)
qed

text \<open>
  \<open>pickTicks(999999999999, 1000000000000, 1)\<close> has a step of 1 and a limit of
  \<open>1000000000000.5\<close>: the array is full before the limit is reached.
\<close>

lemma tickLoop_full:
  assumes "0 \<le> s"
  shows "v + real (maxLength - length ticks) * s \<le> L \<Longrightarrow>
    tickLoop exact (Fin L) (Fin s) (Fin v) ticks = Inl RangeError"
proof (induction "maxLength - length ticks" arbitrary: v ticks)
  case 0
  then show ?case by (subst tickLoop_unfold) simp
next
  case (Suc n)
  then have n: "n = maxLength - length (ticks @ [Fin v])" and room: "length ticks < maxLength"
    by simp_all
  have e: "real (maxLength - length ticks) = real n + 1" using Suc(2) by simp
  have "(v + s) + real n * s \<le> L" using Suc.prems unfolding e by (simp add: algebra_simps)
  then have r: "tickLoop exact (Fin L) (Fin s) (Fin (v + s)) (ticks @ [Fin v]) = Inl RangeError"
    using Suc(1)[OF n] n by simp
  have "0 \<le> real n * s" using assms by simp
  then have "v \<le> L" using \<open>(v + s) + real n * s \<le> L\<close> assms by linarith
  then show ?case using room r by (subst tickLoop_unfold) (simp add: exact_def)
qed

lemma pickTicks_full:
  "pickTicks exact (Fin 999999999999) (Fin 1000000000000) (Fin 1) = Inl RangeError"
proof -
  have s: "niceStep exact (Fin 1) (Fin 1) = Fin 1"
    by (simp add: niceStep_def Let_def jmax_def exact_def nice_def)
  have "\<lfloor>log 10 (1000000000000::real)\<rfloor> = 12"
    by (simp add: floor_log_eq_powr_iff)
  then have c: "niceCeil exact (Fin 1000000000000) = Fin 1000000000000"
    by (simp add: niceCeil_def Let_def exact_def nice_def)
  have "tickLoop exact (Fin (1000000000000 + 1 / 2)) (Fin 1) (Fin 0) [] = Inl RangeError"
    by (rule tickLoop_full) (simp_all add: maxLength_def)
  then show ?thesis
    by (simp add: pickTicks_def Let_def exact_def s c jmax_def)
qed

text \<open>
  So it is in binary64 for \<open>pickTicks(9999999999999998, 10000000000000000, 2)\<close>, with
  a step of 1 and a limit of \<open>10^16\<close>: the values pushed are the integers from 0 on,
  which the rounding leaves alone.
\<close>

lemma tickLoop_counting:
  "0 \<le> i \<Longrightarrow> i + int (maxLength - length ticks) < 2 ^ 53 \<Longrightarrow>
   real_of_int (i + int (maxLength - length ticks)) \<le> L \<Longrightarrow>
     tickLoop rd53 (Fin L) (Fin 1) (Fin (of_int i)) ticks = Inl RangeError"
proof (induction "maxLength - length ticks" arbitrary: i ticks)
  case 0
  then have "real_of_int i \<le> L" by simp
  with 0 show ?case by (subst tickLoop_unfold) simp
next
  case (Suc n)
  then have n: "n = maxLength - length (ticks @ [Fin (of_int i)])"
    and room: "length ticks < maxLength" by simp_all
  have e: "i + int (maxLength - length ticks) = (i + 1) + int n" using Suc(2) by simp
  have "rd53 (of_int (i + 1)) = of_int (i + 1)"
    using Suc.prems(1,2) unfolding e by (intro rd53_int) simp_all
  then have nxt: "jadd rd53 (Fin (of_int i)) (Fin 1) = Fin (of_int (i + 1))" by simp
  have n': "maxLength - length (ticks @ [Fin (of_int i)]) = n" using Suc(2) by simp
  have "0 \<le> i + 1" using Suc.prems(1) by simp
  moreover have "(i + 1) + int (maxLength - length (ticks @ [Fin (of_int i)])) < 2 ^ 53"
    using Suc.prems(2) unfolding e n' .
  moreover have "real_of_int ((i + 1) + int (maxLength - length (ticks @ [Fin (of_int i)]))) \<le> L"
    using Suc.prems(3) unfolding e n' .
  ultimately have r: "tickLoop rd53 (Fin L) (Fin 1) (Fin (of_int (i + 1))) (ticks @ [Fin (of_int i)]) =
      Inl RangeError"
    by (rule Suc(1)[OF n])
  have "real_of_int i \<le> real_of_int ((i + 1) + int n)" by simp
  then have "real_of_int i \<le> L" using Suc.prems(3) unfolding e by linarith
  then show ?case
    using room r by (subst tickLoop_unfold) (simp only: nxt jle.simps if_True)
qed

lemma pickTicks_full_rd53:
  "pickTicks rd53 (Fin 9999999999999998) (Fin 10000000000000000) (Fin 2) = Inl RangeError"
proof -
  have s: "niceStep rd53 (Fin 2) (Fin 2) = Fin 1"
    by (simp add: niceStep_def Let_def jmax_def nice_def rd53_numeral)
  have "log 10 (10000000000000000::real) = log 10 (10 ^ 16)" by simp
  also have "\<dots> = 16" by (subst log_pow_cancel) simp_all
  finally have "\<lfloor>rd53 (log 10 (10000000000000000::real))\<rfloor> = 16"
    by (simp add: rd53_numeral)
  then have c: "niceCeil rd53 (Fin 10000000000000000) = Fin 10000000000000000"
    by (simp add: niceCeil_def Let_def nice_def)
  have "tickLoop rd53 (Fin 10000000000000000) (Fin 1) (Fin (of_int 0)) [] = Inl RangeError"
    by (rule tickLoop_counting) (simp_all add: maxLength_def)
  then show ?thesis
    by (simp add: pickTicks_def Let_def s c jmax_def rd53_numeral rd53_limit)
qed

text \<open>\<open>makeLogTicks(50)\<close> returns its seven ticks unthinned.\<close>

lemma log10_50: "1 \<le> log 10 (50::real)" "log 10 (50::real) \<le> 7 / 4"
proof -
  have "(10::real) ^ 4 \<le> 50 ^ 4" "(50::real) ^ 4 \<le> 10 ^ 7" by simp_all
  from log10_bounds[OF this] show "1 \<le> log 10 (50::real)" "log 10 (50::real) \<le> 7 / 4"
    by simp_all
qed

lemma makeLogTicks_50:
  "makeLogTicks exact (Fin 50) = Some (Inr [Fin 0, Fin 1, Fin 2, Fin 5, Fin 10, Fin 20, Fin 50])"
  "makeLogTicks rd53 (Fin 50) = Some (Inr [Fin 0, Fin 1, Fin 2, Fin 5, Fin 10, Fin 20, Fin 50])"
proof -
  have m: "jmax (Fin 1) (orOne (Fin 50)) = Fin 50"
    by (simp add: jmax_def orOne_def)
  have "\<lfloor>log 10 (50::real)\<rfloor> = 1" using log10_50 by (intro floor_unique) simp_all
  then have p: "jfloor (jlog10 exact (Fin 50)) = Fin 1" by (simp add: exact_def)
  have "\<lfloor>rd53 (log 10 50)\<rfloor> = 1"
    using log10_50 by (intro floor_rd53[where c = "7 / 4"]) simp_all
  then have q: "jfloor (jlog10 rd53 (Fin 50)) = Fin 1" by simp
  have d: "decades exact (Fin 50) (Fin 1) 0 [Fin 0] =
      Some (Inr [Fin 0, Fin 1, Fin 2, Fin 5, Fin 10, Fin 20, Fin 50])"
    by (simp add: decades.simps push_def maxLength_def exact_def)
  have e: "decades rd53 (Fin 50) (Fin 1) 0 [Fin 0] =
      Some (Inr [Fin 0, Fin 1, Fin 2, Fin 5, Fin 10, Fin 20, Fin 50])"
    by (simp add: decades.simps push_def maxLength_def rd53_numeral)
  show "makeLogTicks exact (Fin 50) = Some (Inr [Fin 0, Fin 1, Fin 2, Fin 5, Fin 10, Fin 20, Fin 50])"
    unfolding makeLogTicks_def Let_def m p d by (simp add: dedupe_def jsort_def)
  show "makeLogTicks rd53 (Fin 50) = Some (Inr [Fin 0, Fin 1, Fin 2, Fin 5, Fin 10, Fin 20, Fin 50])"
    unfolding makeLogTicks_def Let_def m q e by (simp add: dedupe_def jsort_def)
qed

text \<open>
  Claim C7, as the code has it, for every rounding. \<open>pickTicks\<close> returns no tick at all
  when a bound is not finite or \<open>max <= min\<close>. A list that \<open>pickTicks\<close> returns has only
  finite entries and, unless it is empty, starts with 0; it is not empty when the bounds
  are finite with \<open>min < max\<close> and the tick target is not NaN (for a rounding that keeps
  the sign). \<open>makeLogTicks\<close> always ends. A list that it returns has only finite entries
  and includes 0. It returns a list for NaN and for every maximum up to \<open>10^309\<close>, which
  every finite binary64 value is (for a monotone rounding that leaves 309 alone), and the
  list \<open>[0, 1]\<close> for NaN and for every maximum up to 1 (for a rounding that leaves 0, 1, 2
  and 5 alone).
\<close>

theorem tick_safety:
  "(\<not> isFinite min' \<or> \<not> isFinite max' \<or> jle max' min' \<longrightarrow>
      pickTicks fl min' max' targetTicks = Inr []) \<and>
   (pickTicks fl min' max' targetTicks = Inr ticks \<longrightarrow>
      list_all isFinite ticks \<and> (ticks \<noteq> [] \<longrightarrow> hd ticks = Fin 0)) \<and>
   ((\<forall>x. 0 \<le> x \<longrightarrow> 0 \<le> fl x) \<and> isFinite min' \<and> isFinite max' \<and> jlt min' max' \<and>
    targetTicks \<noteq> NaN \<longrightarrow>
      pickTicks fl min' max' targetTicks \<noteq> Inr []) \<and>
   (\<exists>out. makeLogTicks fl m = Some out) \<and>
   (makeLogTicks fl m = Some (Inr logTicks) \<longrightarrow>
      list_all isFinite logTicks \<and> Fin 0 \<in> set logTicks) \<and>
   ((\<forall>x y. x \<le> y \<longrightarrow> fl x \<le> fl y) \<and> fl 309 = 309 \<and> (m = NaN \<or> jle m (Fin (10 ^ 309))) \<longrightarrow>
      (\<exists>returned. makeLogTicks fl m = Some (Inr returned))) \<and>
   (fl 0 = 0 \<and> fl 1 = 1 \<and> fl 2 = 2 \<and> fl 5 = 5 \<and> (m = NaN \<or> jle m (Fin 1)) \<longrightarrow>
      makeLogTicks fl m = Some (Inr [Fin 0, Fin 1]))"
proof (intro conjI impI)
  assume "\<not> isFinite min' \<or> \<not> isFinite max' \<or> jle max' min'"
  then show "pickTicks fl min' max' targetTicks = Inr []"
    by (simp add: pickTicks_def)
next
  assume "pickTicks fl min' max' targetTicks = Inr ticks"
  from pickTicks_returned[OF this]
  show "list_all isFinite ticks" "ticks \<noteq> [] \<Longrightarrow> hd ticks = Fin 0" by simp_all
next
  assume "(\<forall>x. 0 \<le> x \<longrightarrow> 0 \<le> fl x) \<and> isFinite min' \<and> isFinite max' \<and> jlt min' max' \<and>
    targetTicks \<noteq> NaN"
  then show "pickTicks fl min' max' targetTicks \<noteq> Inr []"
    by (intro pickTicks_nonempty) simp_all
next
  show "\<exists>out. makeLogTicks fl m = Some out" by (rule makeLogTicks_ends)
next
  assume "makeLogTicks fl m = Some (Inr logTicks)"
  from makeLogTicks_returned[OF this]
  show "list_all isFinite logTicks" "Fin 0 \<in> set logTicks" by simp_all
next
  assume "(\<forall>x y. x \<le> y \<longrightarrow> fl x \<le> fl y) \<and> fl 309 = 309 \<and> (m = NaN \<or> jle m (Fin (10 ^ 309)))"
  then show "\<exists>returned. makeLogTicks fl m = Some (Inr returned)"
    by (intro makeLogTicks_returns) simp_all
next
  assume "fl 0 = 0 \<and> fl 1 = 1 \<and> fl 2 = 2 \<and> fl 5 = 5 \<and> (m = NaN \<or> jle m (Fin 1))"
  then show "makeLogTicks fl m = Some (Inr [Fin 0, Fin 1])"
    by (intro makeLogTicks_small) simp_all
qed

theorem tick_safety_witness:
  "jle (Fin 0) (Fin 0) \<and>
   pickTicks exact (Fin 0) (Fin 0) (Fin 3) = Inr [] \<and>
   pickTicks rd53 (Fin 0) (Fin 0) (Fin 3) = Inr [] \<and>
   jlt (Fin 0) (Fin 5000) \<and>
   pickTicks exact (Fin 0) (Fin 5000) (Fin 3) = Inr [Fin 0, Fin 2000, Fin 4000, Fin 6000] \<and>
   pickTicks rd53 (Fin 0) (Fin 5000) (Fin 3) = Inr [Fin 0, Fin 2000, Fin 4000, Fin 6000] \<and>
   list_all isFinite [Fin 0, Fin 2000, Fin 4000, Fin 6000] \<and>
   makeLogTicks exact (Fin 50) = Some (Inr [Fin 0, Fin 1, Fin 2, Fin 5, Fin 10, Fin 20, Fin 50]) \<and>
   makeLogTicks rd53 (Fin 50) = Some (Inr [Fin 0, Fin 1, Fin 2, Fin 5, Fin 10, Fin 20, Fin 50]) \<and>
   list_all isFinite [Fin 0, Fin 1, Fin 2, Fin 5, Fin 10, Fin 20, Fin 50] \<and>
   Fin 0 \<in> set [Fin 0, Fin 1, Fin 2, Fin 5, Fin 10, Fin 20, Fin 50] \<and>
   rd53 309 = 309 \<and> jle (Fin 50) (Fin (10 ^ 309)) \<and>
   rd53 0 = 0 \<and> rd53 1 = 1 \<and> rd53 2 = 2 \<and> rd53 5 = 5 \<and> jle (Fin (- 3)) (Fin 1) \<and>
   makeLogTicks exact (Fin (- 3)) = Some (Inr [Fin 0, Fin 1]) \<and>
   makeLogTicks rd53 (Fin (- 3)) = Some (Inr [Fin 0, Fin 1])"
proof -
  have sign: "\<forall>x. 0 \<le> x \<longrightarrow> 0 \<le> rd53 x" using rd53_nonneg by blast
  have mono: "\<forall>x y. x \<le> y \<longrightarrow> rd53 x \<le> rd53 y" using rd53_mono by blast
  have small: "rd53 0 = 0" "rd53 1 = 1" "rd53 2 = 2" "rd53 5 = 5" "rd53 309 = 309"
    by (simp_all add: rd53_numeral)
  have big: "jle (Fin 50) (Fin (10 ^ 309))" by simp
  note r = tick_safety[where fl = rd53 and min' = "Fin 0" and max' = "Fin 5000"
      and targetTicks = "Fin 3" and ticks = "[Fin 0, Fin 2000, Fin 4000, Fin 6000]"
      and m = "Fin 50" and logTicks = "[Fin 0, Fin 1, Fin 2, Fin 5, Fin 10, Fin 20, Fin 50]"]
  from r pickTicks_rd53 have 1: "list_all isFinite [Fin 0, Fin 2000, Fin 4000, Fin 6000]"
    by blast
  from r sign have 2: "pickTicks rd53 (Fin 0) (Fin 5000) (Fin 3) \<noteq> Inr []" by simp
  from r makeLogTicks_50(2)
  have 3: "list_all isFinite [Fin 0, Fin 1, Fin 2, Fin 5, Fin 10, Fin 20, Fin 50]"
    "Fin 0 \<in> set [Fin 0, Fin 1, Fin 2, Fin 5, Fin 10, Fin 20, Fin 50]"
    by blast+
  from r mono small(5) big have 4: "\<exists>returned. makeLogTicks rd53 (Fin 50) = Some (Inr returned)"
    by blast
  note s = tick_safety[where fl = rd53 and min' = "Fin 0" and max' = "Fin 0"
      and targetTicks = "Fin 3" and m = "Fin (- 3)"]
  have g: "jle (Fin 0) (Fin 0)" "jle (Fin (- 3)) (Fin 1)" by simp_all
  from s g(1) have 5: "pickTicks rd53 (Fin 0) (Fin 0) (Fin 3) = Inr []" by blast
  from s g(2) small(1-4) have 6: "makeLogTicks rd53 (Fin (- 3)) = Some (Inr [Fin 0, Fin 1])"
    by blast
  note e = tick_safety[where fl = exact and min' = "Fin 0" and max' = "Fin 0"
      and targetTicks = "Fin 3" and m = "Fin (- 3)"]
  from e g(1) have 7: "pickTicks exact (Fin 0) (Fin 0) (Fin 3) = Inr []" by blast
  have "exact 0 = 0" "exact 1 = 1" "exact 2 = 2" "exact 5 = 5" by (simp_all add: exact_def)
  with e g(2) have 8: "makeLogTicks exact (Fin (- 3)) = Some (Inr [Fin 0, Fin 1])"
    by blast
  from 1 2 3 4 5 6 7 8 pickTicks_5000 pickTicks_rd53 makeLogTicks_50 small big g
  show ?thesis by simp
qed

text \<open>
  For \<open>min = max = 0\<close> the result of \<open>pickTicks\<close> is empty: it does not include 0.
\<close>

theorem pickTicks_empty:
  "pickTicks exact (Fin 0) (Fin 0) (Fin 3) = Inr [] \<and>
   pickTicks rd53 (Fin 0) (Fin 0) (Fin 3) = Inr [] \<and> Fin 0 \<notin> set ([] :: number list)"
  by (simp add: pickTicks_def)

end
